theory Spec2Isabelle
  imports Complex_Main "HOL-Library.Sublist"
begin

section \<open>JavaScript strings\<close>

text \<open>
  A JavaScript string is a sequence of UTF-16 code units. The model keeps the code units
  as natural numbers, so that the white space of \<^verbatim>\<open>\s\<close> and of
  \<^verbatim>\<open>String.prototype.trim\<close> (which reaches beyond ASCII) is the one
  of the language. \<open>js\<close> turns a literal of the theory into such a string.
\<close>

type_synonym jsstr = "nat list"

definition js :: "string \<Rightarrow> jsstr" where
  "js s = map of_char s"

text \<open>The code units that \<^verbatim>\<open>\s\<close> matches and \<^verbatim>\<open>trim()\<close> removes:
  TAB, LF, VT, FF, CR, SP, NBSP, U+1680, U+2000..U+200A, LS, PS, U+202F, U+205F, U+3000, BOM.\<close>

definition is_space :: "nat \<Rightarrow> bool" where
  "is_space c \<longleftrightarrow>
     c = 9 \<or> c = 10 \<or> c = 11 \<or> c = 12 \<or> c = 13 \<or> c = 32 \<or> c = 160 \<or> c = 5760 \<or>
     (8192 \<le> c \<and> c \<le> 8202) \<or> c = 8232 \<or> c = 8233 \<or> c = 8239 \<or> c = 8287 \<or>
     c = 12288 \<or> c = 65279"

definition trim :: "jsstr \<Rightarrow> jsstr" where
  "trim s = rev (dropWhile is_space (rev (dropWhile is_space s)))"

definition colon :: jsstr where
  "colon = [58]"

section \<open>The page state the orchestrator reads and writes\<close>

text \<open>
  \<^verbatim>\<open>window.toggleState.autoExecute\<close> holds any JavaScript value; the code
  tells \<^verbatim>\<open>undefined\<close>, \<^verbatim>\<open>true\<close> and \<^verbatim>\<open>false\<close>
  apart from everything else.
\<close>

datatype jsval = Undefined | JBool bool | JOther

text \<open>
  An execute button as the scheduler sees it: the block whose button container holds it
  (\<open>container\<close>), whether it is attached to the document, its \<^verbatim>\<open>disabled\<close>
  property, its \<^verbatim>\<open>data-auto-exec-ready\<close> attribute, and what
  \<^verbatim>\<open>closest('.function-block')\<close> gives for it: the text of that block's
  \<^verbatim>\<open>.function-name-text\<close> element and its \<^verbatim>\<open>data-block-id\<close>.
  \<open>clickThrows\<close> says that activating it raises, the case the source's
  \<^verbatim>\<open>try/catch\<close> is written for.
\<close>

record button =
  btnId :: nat
  container :: "jsstr option"
  inDocument :: bool
  disabled :: bool
  autoExecReady :: "jsstr option"
  parentBlock :: "(jsstr option \<times> jsstr option) option"
  clickThrows :: bool

datatype timer = SetupAutoExecution | Retry nat | Scanner | ScanClick nat

datatype event =
    Marked jsstr
  | BlockMarked jsstr
  | Click nat
  | SetTimeout timer rat

text \<open>
  \<open>prevExec\<close> and \<open>prevExecLegacy\<close> stand for the persistent lookups
  \<^verbatim>\<open>getPreviousExecution(name, callId, signature) !== null\<close> and
  \<^verbatim>\<open>getPreviousExecutionLegacy(callId, signature) !== null\<close> of the storage
  module, which the orchestrator only reads. \<open>executedFunctions\<close> and \<open>executed\<close>
  are the tracker's JavaScript \<^verbatim>\<open>Set\<close>s in insertion order, \<open>attempts\<close>
  its \<^verbatim>\<open>Map\<close>. \<open>events\<close> records, in order, the effects of the
  orchestrator that the claims speak about: marks, activations and timers.
\<close>

record world =
  toggleState :: "jsval option"
  prevExec :: "jsstr \<Rightarrow> jsstr \<Rightarrow> jsstr \<Rightarrow> bool"
  prevExecLegacy :: "jsstr \<Rightarrow> jsstr \<Rightarrow> bool"
  attempts :: "jsstr \<rightharpoonup> nat"
  executed :: "jsstr list"
  executedFunctions :: "jsstr list"
  buttons :: "button list"
  events :: "event list"

definition DEFAULT_AUTO_EXECUTE :: bool where
  "DEFAULT_AUTO_EXECUTE = True"

definition MAX_AUTO_EXECUTE_ATTEMPTS :: nat where
  "MAX_AUTO_EXECUTE_ATTEMPTS = 8"

section \<open>The execution tracker\<close>

text \<open>\<^verbatim>\<open>Set.prototype.add\<close>: a value already present is not added again.\<close>

definition set_add :: "'a \<Rightarrow> 'a list \<Rightarrow> 'a list" where
  "set_add x xs = (if x \<in> set xs then xs else xs @ [x])"

text \<open>\<^verbatim>\<open>String.prototype.split(':')\<close>.\<close>

fun split_colon :: "jsstr \<Rightarrow> jsstr list" where
  "split_colon [] = [[]]"
| "split_colon (c # cs) =
     (if c = 58 then [] # split_colon cs
      else (case split_colon cs of p # ps \<Rightarrow> (c # p) # ps | [] \<Rightarrow> [[c]]))"

definition legacyCheck :: "world \<Rightarrow> jsstr \<Rightarrow> jsstr \<Rightarrow> bool" where
  "legacyCheck w callId contentSignature =
     (let legacyKey = callId @ colon @ contentSignature;
          legacyKey2 = colon @ callId @ colon @ contentSignature;
          inMemoryLegacy = (legacyKey \<in> set (executedFunctions w) \<or> legacyKey2 \<in> set (executedFunctions w));
          inStorageLegacy = prevExecLegacy w callId contentSignature
      in inMemoryLegacy \<or> inStorageLegacy)"

definition isFunctionExecuted :: "world \<Rightarrow> jsstr \<Rightarrow> jsstr \<Rightarrow> jsstr option \<Rightarrow> bool" where
  "isFunctionExecuted w callId contentSignature functionName =
     (case functionName of
        Some fn \<Rightarrow>
          (let key = fn @ colon @ callId @ colon @ contentSignature;
               inMemory = (key \<in> set (executedFunctions w));
               inStorage = prevExec w fn callId contentSignature
           in if inMemory \<or> inStorage then True else legacyCheck w callId contentSignature)
      | None \<Rightarrow>
          (if list_ex (\<lambda>key. let parts = split_colon key
                              in length parts = 3 \<and> parts ! 1 = callId \<and> parts ! 2 = contentSignature)
                (executedFunctions w)
           then True
           else legacyCheck w callId contentSignature))"

text \<open>The key under which \<^verbatim>\<open>markFunctionExecuted\<close> files a call.\<close>

definition functionKey :: "jsstr \<Rightarrow> jsstr \<Rightarrow> jsstr option \<Rightarrow> jsstr" where
  "functionKey callId contentSignature functionName =
     (case functionName of
        Some fn \<Rightarrow>
          (if length (trim fn) > 0 then fn @ colon @ callId @ colon @ contentSignature
           else callId @ colon @ contentSignature)
      | None \<Rightarrow> callId @ colon @ contentSignature)"

definition markFunctionExecuted :: "jsstr \<Rightarrow> jsstr \<Rightarrow> jsstr option \<Rightarrow> world \<Rightarrow> world" where
  "markFunctionExecuted callId contentSignature functionName w =
     (let key = functionKey callId contentSignature functionName
      in w\<lparr>executedFunctions := set_add key (executedFunctions w),
            events := events w @ [Marked key]\<rparr>)"

definition isBlockExecuted :: "world \<Rightarrow> jsstr \<Rightarrow> bool" where
  "isBlockExecuted w blockId \<longleftrightarrow> blockId \<in> set (executed w)"

definition markBlockExecuted :: "jsstr \<Rightarrow> world \<Rightarrow> world" where
  "markBlockExecuted blockId w =
     w\<lparr>executed := set_add blockId (executed w), events := events w @ [BlockMarked blockId]\<rparr>"

definition getAttempts :: "world \<Rightarrow> jsstr \<Rightarrow> nat" where
  "getAttempts w blockId = (case attempts w blockId of Some n \<Rightarrow> n | None \<Rightarrow> 0)"

definition incrementAttempts :: "jsstr \<Rightarrow> world \<Rightarrow> nat \<times> world" where
  "incrementAttempts blockId w =
     (let newValue = getAttempts w blockId + 1
      in (newValue, w\<lparr>attempts := (attempts w)(blockId \<mapsto> newValue)\<rparr>))"

definition cleanupBlock :: "jsstr \<Rightarrow> world \<Rightarrow> world" where
  "cleanupBlock blockId w = w\<lparr>attempts := (attempts w)(blockId := None)\<rparr>"

section \<open>The auto-execution scheduler of \<^verbatim>\<open>renderFunctionCall\<close>\<close>

text \<open>
  What the closures of the scheduler capture when the execute button of a block has just
  been added: the function name, the block identifier, the call identifier and the content
  signature (\<^verbatim>\<open>null\<close> when none was computed).
\<close>

record call =
  functionName :: jsstr
  blockId :: jsstr
  callId :: jsstr
  contentSignature :: "jsstr option"

text \<open>A template literal prints \<^verbatim>\<open>null\<close> as the four letters.\<close>

definition sigText :: "jsstr option \<Rightarrow> jsstr" where
  "sigText s = (case s of Some t \<Rightarrow> t | None \<Rightarrow> js ''null'')"

text \<open>\<^verbatim>\<open>contentSignature || ''\<close>.\<close>

definition sigOrEmpty :: "jsstr option \<Rightarrow> jsstr" where
  "sigOrEmpty s = (case s of Some t \<Rightarrow> t | None \<Rightarrow> [])"

text \<open>A signature is truthy when it is a non-empty string.\<close>

definition sigTruthy :: "jsstr option \<Rightarrow> bool" where
  "sigTruthy s = (case s of Some t \<Rightarrow> t \<noteq> [] | None \<Rightarrow> False)"

definition containerButton :: "call \<Rightarrow> world \<Rightarrow> button option" where
  "containerButton c w = find (\<lambda>b. container b = Some (blockId c)) (buttons w)"

text \<open>\<^verbatim>\<open>button.click()\<close> and \<^verbatim>\<open>dispatchEvent(clickEvent)\<close>:
  the activation is recorded; what the button's handler does is outside the orchestrator.\<close>

definition click :: "button \<Rightarrow> world \<Rightarrow> world" where
  "click b w = w\<lparr>events := events w @ [Click (btnId b)]\<rparr>"

definition setTimeout :: "timer \<Rightarrow> rat \<Rightarrow> world \<Rightarrow> world" where
  "setTimeout t delay w = w\<lparr>events := events w @ [SetTimeout t delay]\<rparr>"

definition executeDirectly :: "call \<Rightarrow> world \<Rightarrow> bool \<times> world" where
  "executeDirectly c w =
     (case containerButton c w of
        Some b \<Rightarrow>
          (if \<not> disabled b then
             (if clickThrows b then (False, click b w) else (True, click b w))
           else (False, w))
      | None \<Rightarrow> (False, w))"

text \<open>
  The fallback search of \<^verbatim>\<open>retry\<close> over all execute buttons of the document:
  the first button whose enclosing function block shows this function name, or carries
  this block identifier.
\<close>

definition fallbackButton :: "call \<Rightarrow> world \<Rightarrow> button option" where
  "fallbackButton c w =
     find (\<lambda>b. case parentBlock b of
                 None \<Rightarrow> False
               | Some (nameText, bid) \<Rightarrow> nameText = Some (functionName c) \<or> bid = Some (blockId c))
          (filter inDocument (buttons w))"

definition findExecuteButton :: "call \<Rightarrow> world \<Rightarrow> button option" where
  "findExecuteButton c w =
     (case containerButton c w of Some b \<Rightarrow> Some b | None \<Rightarrow> fallbackButton c w)"

text \<open>
  \<^verbatim>\<open>Math.min(baseDelay * Math.pow(1.5, retryCount - 1), maxDelay)\<close>. The
  values that occur (150 times a power of 3/2, as long as that is below 1000) are dyadic
  rationals with few digits, which binary floating point holds exactly; the model computes
  in the rationals.
\<close>

definition retryDelay :: "nat \<Rightarrow> rat" where
  "retryDelay retryCount =
     (let baseDelay = 150; maxDelay = 1000
      in min (baseDelay * power_int (3 / 2) (int retryCount - 1)) maxDelay)"

datatype retry_outcome = GaveUp | FoundInStorage | Clicked | Rescheduled rat

text \<open>
  One invocation of the closure \<^verbatim>\<open>retry\<close>: \<open>retryCount\<close> is the counter
  the closure holds when the timer fires, the result carries the counter it leaves.
\<close>

definition retry :: "call \<Rightarrow> nat \<Rightarrow> world \<Rightarrow> retry_outcome \<times> nat \<times> world" where
  "retry c retryCount0 w =
     (let retryCount = retryCount0 + 1;
          reschedule = (\<lambda>w'. (Rescheduled (retryDelay retryCount), retryCount,
                               setTimeout (Retry retryCount) (retryDelay retryCount) w'))
      in if retryCount > MAX_AUTO_EXECUTE_ATTEMPTS then (GaveUp, retryCount, w)
         else if prevExec w (functionName c) (callId c) (sigOrEmpty (contentSignature c))
         then (FoundInStorage, retryCount, w)
         else (case findExecuteButton c w of
                 Some b \<Rightarrow>
                   (if \<not> disabled b then
                      (if clickThrows b then reschedule (click b w)
                       else (Clicked, retryCount, click b w))
                    else reschedule w)
               | None \<Rightarrow> reschedule w))"

definition setupAutoExecution :: "call \<Rightarrow> world \<Rightarrow> retry_outcome \<times> nat \<times> world" where
  "setupAutoExecution c w = retry c 0 w"

datatype schedule_result =
    AlreadyExecuted | AutoExecuteDisabled | AlreadyProcessing | ExecutedDirectly | RetryArmed

text \<open>
  The part of \<^verbatim>\<open>renderFunctionCall\<close> that runs right after the execute button
  of a complete call has been added (the button is already in \<open>buttons w\<close>).
\<close>

definition initToggleState :: "world \<Rightarrow> world" where
  "initToggleState w =
     (let ts = (case toggleState w of Some v \<Rightarrow> v | None \<Rightarrow> Undefined)
      in w\<lparr>toggleState := Some (if ts = Undefined then JBool DEFAULT_AUTO_EXECUTE else ts)\<rparr>)"

definition autoExecuteEnabled :: "world \<Rightarrow> bool" where
  "autoExecuteEnabled w \<longleftrightarrow> toggleState w = Some (JBool True)"

text \<open>Lines 705 to 858: what happens once every check has passed.\<close>

definition beginAutoExecution :: "call \<Rightarrow> world \<Rightarrow> schedule_result \<times> world" where
  "beginAutoExecution c w =
     (let w1 = markFunctionExecuted (callId c) (sigText (contentSignature c))
                 (Some (functionName c)) w;
          w2 = markBlockExecuted (blockId c) w1;
          w3 = markBlockExecuted (blockId c) w2;
          w4 = (if sigTruthy (contentSignature c)
                then markFunctionExecuted (callId c) (sigText (contentSignature c))
                       (Some (functionName c)) w3
                else w3);
          (done, w5) = executeDirectly c w4
      in if done then (ExecutedDirectly, w5)
         else (RetryArmed, setTimeout SetupAutoExecution 50 w5))"

definition scheduleAutoExecution :: "call \<Rightarrow> world \<Rightarrow> schedule_result \<times> world" where
  "scheduleAutoExecution c w0 =
     (let w = initToggleState w0;
          enabled = autoExecuteEnabled w;
          alreadyExecuted =
            (if sigTruthy (contentSignature c)
             then prevExec w (functionName c) (callId c) (sigOrEmpty (contentSignature c))
             else False)
      in if alreadyExecuted then (AlreadyExecuted, w)
         else if \<not> enabled then (AutoExecuteDisabled, w)
         else if isBlockExecuted w (blockId c) \<and> getAttempts w (blockId c) > 0
         then (AlreadyProcessing, w)
         else beginAutoExecution c w)"

text \<open>
  The retry chain over time: between two firings of the timer anything else on the page may
  run, which the list of world transformers stands for (one per gap). The chain stops by
  itself; the list only bounds how long it is observed.
\<close>

fun retryChain :: "call \<Rightarrow> (world \<Rightarrow> world) list \<Rightarrow> nat \<Rightarrow> world \<Rightarrow> retry_outcome list \<times> world" where
  "retryChain c [] n w = (case retry c n w of (out, n', w') \<Rightarrow> ([out], w'))"
| "retryChain c (e # es) n w =
     (case retry c n w of
        (Rescheduled d, n', w') \<Rightarrow>
          (case retryChain c es n' (e w') of (outs, w'') \<Rightarrow> (Rescheduled d # outs, w''))
      | (out, n', w') \<Rightarrow> ([out], w'))"

text \<open>An invocation that gets as far as looking for the button is an attempt.\<close>

fun isAttempt :: "retry_outcome \<Rightarrow> bool" where
  "isAttempt GaveUp = False"
| "isAttempt FoundInStorage = False"
| "isAttempt Clicked = True"
| "isAttempt (Rescheduled d) = True"

section \<open>The periodic execute-button scanner\<close>

definition scannerEnabled :: "world \<Rightarrow> bool" where
  "scannerEnabled w \<longleftrightarrow> toggleState w = Some (JBool True)"

definition buttonEligible :: "button \<Rightarrow> bool" where
  "buttonEligible b \<longleftrightarrow> \<not> (disabled b \<or> autoExecReady b = Some (js ''false''))"

fun scheduleScanClicks :: "nat \<Rightarrow> button list \<Rightarrow> world \<Rightarrow> world" where
  "scheduleScanClicks index [] w = w"
| "scheduleScanClicks index (b # bs) w =
     scheduleScanClicks (Suc index) bs
       (if buttonEligible b
        then setTimeout (ScanClick (btnId b)) (300 * (of_nat index + 1)) w
        else w)"

definition autoExecuteButtonScanner :: "world \<Rightarrow> world" where
  "autoExecuteButtonScanner w =
     (let enabled = scannerEnabled w;
          allButtons = filter inDocument (buttons w)
      in if allButtons = [] then setTimeout Scanner 1000 w
         else setTimeout Scanner 3000
                (if enabled then scheduleScanClicks 0 allButtons w else w))"

text \<open>The callback of one scheduled scan click, for the button with the given identity.\<close>

definition scanClick :: "nat \<Rightarrow> world \<Rightarrow> world" where
  "scanClick i w =
     (case find (\<lambda>b. btnId b = i) (buttons w) of
        None \<Rightarrow> w
      | Some b \<Rightarrow> (if scannerEnabled w \<and> buttonEligible b then click b w else w))"

section \<open>The parameter loop of \<^verbatim>\<open>renderFunctionCall\<close>: matches and values\<close>

text \<open>
  \<^verbatim>\<open>String.prototype.indexOf(needle, position)\<close>: the first index at or after
  \<open>position\<close> where \<open>needle\<close> occurs, \<open>None\<close> for \<open>-1\<close>.
\<close>

fun find_sub :: "jsstr \<Rightarrow> jsstr \<Rightarrow> nat option" where
  "find_sub needle [] = (if needle = [] then Some 0 else None)"
| "find_sub needle (c # cs) =
     (if prefix needle (c # cs) then Some 0 else map_option Suc (find_sub needle cs))"

definition indexOf :: "jsstr \<Rightarrow> jsstr \<Rightarrow> nat \<Rightarrow> nat option" where
  "indexOf s needle position =
     (let p = min position (length s)
      in map_option (\<lambda>k. p + k) (find_sub needle (drop p s)))"

text \<open>\<^verbatim>\<open>String.prototype.substring(a, b)\<close> and \<^verbatim>\<open>substring(a)\<close>.\<close>

definition substring :: "jsstr \<Rightarrow> nat \<Rightarrow> nat \<Rightarrow> jsstr" where
  "substring s a b =
     (let lo = min (min a b) (length s); hi = min (max a b) (length s)
      in take (hi - lo) (drop lo s))"

definition substringFrom :: "jsstr \<Rightarrow> nat \<Rightarrow> jsstr" where
  "substringFrom s a = drop a s"

definition endTag :: jsstr where
  "endTag = js ''</parameter>''"

definition paramOpen :: jsstr where
  "paramOpen = js ''<parameter''"

text \<open>The letters \<^verbatim>\<open>name=\<close> and the double quote (code unit 34).\<close>

definition nameEq :: jsstr where
  "nameEq = js ''name='' @ [34]"

definition cdataOpen :: jsstr where
  "cdataOpen = js ''<![CDATA[''"

definition cdataClose :: jsstr where
  "cdataClose = js '']]>''"

text \<open>
  The regular expression \<^verbatim>\<open><parameter\s+name="([^"]+)"[^>]*>\<close> matched at the
  start of a text: the captured name and the length of the whole match. Each greedy
  quantifier of this expression is followed by a character outside its class, so giving
  back characters can never help and the longest run is the only candidate: the white space
  must be followed by \<^verbatim>\<open>name="\<close>, the run of non-quotes by a quote, and the
  run of non-\<^verbatim>\<open>>\<close> by \<^verbatim>\<open>>\<close>.
\<close>

definition matchParamStart :: "jsstr \<Rightarrow> (jsstr \<times> nat) option" where
  "matchParamStart s =
     (if \<not> prefix paramOpen s then None
      else
        (let r1 = drop (length paramOpen) s;
             ws = takeWhile is_space r1;
             r2 = dropWhile is_space r1
         in if ws = [] \<or> \<not> prefix nameEq r2 then None
            else
              (let r3 = drop (length nameEq) r2;
                   name = takeWhile (\<lambda>c. c \<noteq> 34) r3;
                   r4 = dropWhile (\<lambda>c. c \<noteq> 34) r3
               in if name = [] \<or> r4 = [] then None
                  else
                    (let r5 = tl r4;
                         attrs = takeWhile (\<lambda>c. c \<noteq> 62) r5;
                         r6 = dropWhile (\<lambda>c. c \<noteq> 62) r5
                     in if r6 = [] then None
                        else Some (name,
                               length paramOpen + length ws + length nameEq + length name + 1 +
                               length attrs + 1)))))"

text \<open>
  \<^verbatim>\<open>paramStartRegex.exec(rawContent)\<close> with the global flag: the search starts
  at \<open>lastIndex\<close> and returns the index of the first match, the captured name and the
  length of the match.
\<close>

function execParamStart :: "jsstr \<Rightarrow> nat \<Rightarrow> (nat \<times> jsstr \<times> nat) option" where
  "execParamStart s i =
     (if length s \<le> i then None
      else (case matchParamStart (drop i s) of
              Some (name, len) \<Rightarrow> Some (i, name, len)
            | None \<Rightarrow> execParamStart s (Suc i)))"
  by pat_completeness auto
termination
  by (relation "measure (\<lambda>(s, i). length s - i)") auto

declare execParamStart.simps [simp del]

text \<open>
  The regular expression \<^verbatim>\<open><!\[CDATA\[(.*?)(?:\]\]>)?$\<close> with the flag
  \<^verbatim>\<open>s\<close>, searched in a value: the match starts at the first
  \<^verbatim>\<open><![CDATA[\<close>; the lazy group stops at the first point from which the rest
  is \<^verbatim>\<open>]]>\<close> exactly or is empty, that is, it captures everything after the
  opener except a \<^verbatim>\<open>]]>\<close> that ends the value.
\<close>

definition cdataCapture :: "jsstr \<Rightarrow> jsstr option" where
  "cdataCapture v =
     (case find_sub cdataOpen v of
        None \<Rightarrow> None
      | Some i \<Rightarrow>
          (let rest = drop (i + length cdataOpen) v
           in Some (if suffix cdataClose rest then take (length rest - length cdataClose) rest
                    else rest)))"

definition paramValueText :: "jsstr \<Rightarrow> jsstr" where
  "paramValueText extracted =
     (case cdataCapture extracted of Some inner \<Rightarrow> inner | None \<Rightarrow> trim extracted)"

lemma matchParamStart_SomeD:
  assumes m: "matchParamStart s = Some (name, len)"
  shows "\<exists>ws attrs rest.
           s = paramOpen @ ws @ nameEq @ name @ [34] @ attrs @ [62] @ rest \<and>
           ws \<noteq> [] \<and> (\<forall>c\<in>set ws. is_space c) \<and>
           name \<noteq> [] \<and> 34 \<notin> set name \<and> 62 \<notin> set attrs \<and>
           len = length (paramOpen @ ws @ nameEq @ name @ [34] @ attrs @ [62])"
proof -
  define r1 where "r1 = drop (length paramOpen) s"
  define ws where "ws = takeWhile is_space r1"
  define r2 where "r2 = dropWhile is_space r1"
  define r3 where "r3 = drop (length nameEq) r2"
  define nm where "nm = takeWhile (\<lambda>c. c \<noteq> 34) r3"
  define r4 where "r4 = dropWhile (\<lambda>c. c \<noteq> 34) r3"
  define attrs where "attrs = takeWhile (\<lambda>c. c \<noteq> 62) (tl r4)"
  define r6 where "r6 = dropWhile (\<lambda>c. c \<noteq> 62) (tl r4)"
  have unf: "matchParamStart s =
     (if \<not> prefix paramOpen s then None
      else if ws = [] \<or> \<not> prefix nameEq r2 then None
      else if nm = [] \<or> r4 = [] then None
      else if r6 = [] then None
      else Some (nm, length paramOpen + length ws + length nameEq + length nm + 1 + length attrs + 1))"
    unfolding matchParamStart_def Let_def r1_def ws_def r2_def r3_def nm_def r4_def attrs_def r6_def
    by (rule refl)
  from m unf have p: "prefix paramOpen s" by (metis option.distinct(1))
  from m unf p have w: "ws \<noteq> []" and q: "prefix nameEq r2" by (metis option.distinct(1))+
  from m unf p w q have n: "nm \<noteq> []" and n4: "r4 \<noteq> []" by (metis option.distinct(1))+
  from m unf p w q n n4 have n6: "r6 \<noteq> []" by (metis option.distinct(1))
  from m unf p w q n n4 n6 have res: "name = nm"
    "len = length paramOpen + length ws + length nameEq + length nm + 1 + length attrs + 1"
    by auto
  have s1: "s = paramOpen @ r1" using p by (auto simp: r1_def prefix_def)
  have s2: "r1 = ws @ r2" by (simp add: ws_def r2_def)
  have s3: "r2 = nameEq @ r3" using q by (auto simp: r3_def prefix_def)
  have s4: "r3 = nm @ r4" by (simp add: nm_def r4_def)
  have h4: "hd r4 = 34" using n4 hd_dropWhile[of "\<lambda>c. c \<noteq> 34" r3] by (simp add: r4_def)
  have s5: "r4 = [34] @ tl r4" using n4 h4 by (cases r4) auto
  have s6: "tl r4 = attrs @ r6" by (simp add: attrs_def r6_def)
  have h6: "hd r6 = 62" using n6 hd_dropWhile[of "\<lambda>c. c \<noteq> 62" "tl r4"] by (simp add: r6_def)
  have s7: "r6 = [62] @ tl r6" using n6 h6 by (cases r6) auto
  have "s = paramOpen @ ws @ nameEq @ nm @ [34] @ attrs @ [62] @ tl r6"
    using s1 s2 s3 s4 s5 s6 s7 by (metis append_assoc)
  moreover have "\<forall>c\<in>set ws. is_space c" unfolding ws_def by (meson set_takeWhileD)
  moreover have "34 \<notin> set nm" unfolding nm_def using set_takeWhileD[of 34 "\<lambda>c. c \<noteq> 34" r3] by blast
  moreover have "62 \<notin> set attrs" unfolding attrs_def
    using set_takeWhileD[of 62 "\<lambda>c. c \<noteq> 62" "tl r4"] by blast
  ultimately show ?thesis using w n res by (intro exI[of _ ws] exI[of _ attrs] exI[of _ "tl r6"]) simp
qed

lemma matchParamStart_length:
  "matchParamStart s = Some (name, len) \<Longrightarrow> 0 < len \<and> len \<le> length s"
proof -
  assume "matchParamStart s = Some (name, len)"
  from matchParamStart_SomeD[OF this] obtain ws attrs rest where
    "s = paramOpen @ ws @ nameEq @ name @ [34] @ attrs @ [62] @ rest"
    "len = length (paramOpen @ ws @ nameEq @ name @ [34] @ attrs @ [62])" by blast
  then show ?thesis by simp
qed

lemma execParamStart_bounds:
  "execParamStart s i = Some (idx, name, len) \<Longrightarrow> i \<le> idx \<and> 0 < len \<and> idx + len \<le> length s"
proof (induction s i rule: execParamStart.induct)
  case (1 s i)
  show ?case
  proof (cases "length s \<le> i")
    case True
    with "1.prems" show ?thesis by (simp add: execParamStart.simps[of s i])
  next
    case False
    show ?thesis
    proof (cases "matchParamStart (drop i s)")
      case None
      with False "1.prems" have "execParamStart s (Suc i) = Some (idx, name, len)"
        by (simp add: execParamStart.simps[of s i])
      with "1.IH"[OF False None] show ?thesis by simp
    next
      case (Some a)
      obtain nm l where a: "a = (nm, l)" by (cases a)
      with Some False "1.prems" have e: "idx = i" "nm = name" "l = len"
        by (simp_all add: execParamStart.simps[of s i])
      from matchParamStart_length[of "drop i s" nm l] Some a
      have "0 < l \<and> l \<le> length (drop i s)" by simp
      with e False show ?thesis by auto
    qed
  qed
qed

text \<open>
  The regular expression carries the global flag, so the successive calls of
  \<^verbatim>\<open>paramStartRegex.exec(rawContent)\<close> in the loop of lines 563 to 595 walk
  through its matches, each search starting where the previous match ended. For one match,
  lines 564 to 588 compute the parameter name, the extracted value and the flag
  \<^verbatim>\<open>isParamStreaming\<close> from the text alone. \<open>paramMatches\<close> lists these
  triples match by match, from the given \<open>lastIndex\<close> on. It is not the loop: the loop
  hands each triple to \<^verbatim>\<open>createOrUpdateParamElement\<close> (line 594) and ends
  where that call raises. The loop is \<open>parameterLoop\<close> below; \<open>paramMatches\<close>
  serves to reason about it.
\<close>

function paramMatches :: "jsstr \<Rightarrow> nat \<Rightarrow> (jsstr \<times> jsstr \<times> bool) list" where
  "paramMatches rawContent lastIndex =
     (case execParamStart rawContent lastIndex of
        None \<Rightarrow> []
      | Some (index, paramName, matchLength) \<Rightarrow>
          (let startIndex = index + matchLength;
               endTagIndex = indexOf rawContent endTag startIndex;
               isParamStreaming = (endTagIndex = None);
               extractedValue =
                 (case endTagIndex of
                    Some e \<Rightarrow> substring rawContent startIndex e
                  | None \<Rightarrow> substringFrom rawContent startIndex)
           in (paramName, paramValueText extractedValue, isParamStreaming)
              # paramMatches rawContent startIndex))"
  by pat_completeness auto
termination
  by (relation "measure (\<lambda>(s, i). length s - i)") (auto dest!: execParamStart_bounds)

declare paramMatches.simps [simp del]

subsection \<open>Streams of well-formed parameters\<close>

text \<open>
  The text of one parameter as it arrives: what precedes its opening tag, the opening tag
  \<^verbatim>\<open><parameter\<close> \<open>spaces\<close> \<^verbatim>\<open>name="\<close>\<open>name\<close>\<^verbatim>\<open>"\<close>\<open>attributes\<close>\<^verbatim>\<open>>\<close>,
  and the value text that follows it (all of it when the parameter is closed, what has
  arrived so far when it is still streaming).
\<close>

record param_src =
  srcGap :: jsstr
  srcSpaces :: jsstr
  srcName :: jsstr
  srcAttrs :: jsstr
  srcValue :: jsstr

definition openTagOf :: "param_src \<Rightarrow> jsstr" where
  "openTagOf p = paramOpen @ srcSpaces p @ nameEq @ srcName p @ [34] @ srcAttrs p @ [62]"

definition noOpen :: "jsstr \<Rightarrow> bool" where
  "noOpen t \<longleftrightarrow> find_sub paramOpen t = None"

text \<open>
  A parameter is well formed when neither the text before it nor its value contains
  \<^verbatim>\<open><parameter\<close>, its value does not contain \<^verbatim>\<open></parameter>\<close>,
  the white space after \<^verbatim>\<open><parameter\<close> is white space and not empty, the name
  is not empty and has no double quote, and the attributes have no \<^verbatim>\<open>>\<close>.
\<close>

definition wfParam :: "param_src \<Rightarrow> bool" where
  "wfParam p \<longleftrightarrow>
     noOpen (srcGap p) \<and> srcSpaces p \<noteq> [] \<and> list_all is_space (srcSpaces p) \<and>
     srcName p \<noteq> [] \<and> 34 \<notin> set (srcName p) \<and> 62 \<notin> set (srcAttrs p) \<and>
     noOpen (srcValue p) \<and> find_sub endTag (srcValue p) = None"

definition closedText :: "param_src \<Rightarrow> jsstr" where
  "closedText p = srcGap p @ openTagOf p @ srcValue p @ endTag"

definition openText :: "param_src \<Rightarrow> jsstr" where
  "openText p = srcGap p @ openTagOf p @ srcValue p"

text \<open>
  A stream: closed parameters in document order, followed either by a parameter whose
  closing tag has not yet appeared, or by text without any further opening tag.
\<close>

definition streamText :: "param_src list \<Rightarrow> param_src option \<Rightarrow> jsstr \<Rightarrow> jsstr" where
  "streamText ps streaming post =
     concat (map closedText ps) @ (case streaming of None \<Rightarrow> post | Some t \<Rightarrow> openText t)"

subsection \<open>Facts about the search and the loop\<close>

lemma find_sub_None_iff:
  "find_sub p s = None \<longleftrightarrow> (\<forall>i\<le>length s. \<not> prefix p (drop i s))"
proof (induction s)
  case Nil
  then show ?case by simp
next
  case (Cons c cs)
  have "(\<forall>i\<le>length (c # cs). \<not> prefix p (drop i (c # cs))) \<longleftrightarrow>
        (\<not> prefix p (c # cs) \<and> (\<forall>i\<le>length cs. \<not> prefix p (drop i cs)))"
  proof
    assume a: "\<forall>i\<le>length (c # cs). \<not> prefix p (drop i (c # cs))"
    have "\<not> prefix p (c # cs)" using a[rule_format, of 0] by simp
    moreover have "\<forall>i\<le>length cs. \<not> prefix p (drop i cs)"
    proof (intro allI impI)
      fix i assume "i \<le> length cs"
      then show "\<not> prefix p (drop i cs)" using a[rule_format, of "Suc i"] by simp
    qed
    ultimately show "\<not> prefix p (c # cs) \<and> (\<forall>i\<le>length cs. \<not> prefix p (drop i cs))" by blast
  next
    assume a: "\<not> prefix p (c # cs) \<and> (\<forall>i\<le>length cs. \<not> prefix p (drop i cs))"
    show "\<forall>i\<le>length (c # cs). \<not> prefix p (drop i (c # cs))"
    proof (intro allI impI)
      fix i assume "i \<le> length (c # cs)"
      then show "\<not> prefix p (drop i (c # cs))" using a by (cases i) auto
    qed
  qed
  then show ?case using Cons.IH by (simp split: if_splits)
qed

lemma straddle:
  assumes "prefix p (a @ b)" "\<not> prefix p a" "a \<noteq> []" "p \<noteq> []"
  shows "b \<noteq> [] \<and> hd b \<in> set (tl p)"
proof -
  from assms(1,2) obtain us where us: "p = a @ us" "prefix us b"
    by (auto simp: prefix_append)
  have "us \<noteq> []" using us(1) assms(2) by auto
  then have "b \<noteq> []" "hd b = hd us" using us(2) by (auto simp: prefix_def)
  moreover have "hd us \<in> set (tl p)" using us(1) \<open>us \<noteq> []\<close> assms(3) by (cases a) auto
  ultimately show ?thesis by simp
qed

lemma find_sub_append_first:
  assumes "find_sub p v = None" "p \<noteq> []" "hd p \<notin> set (tl p)"
  shows "find_sub p (v @ p @ rest) = Some (length v)"
  using assms(1)
proof (induction v)
  case Nil
  obtain c cs where "p @ rest = c # cs" using assms(2) by (cases "p @ rest") auto
  then show ?case by (metis append_Nil find_sub.simps(2) list.size(3) prefixI)
next
  case (Cons c cs)
  from Cons.prems have np: "\<not> prefix p (c # cs)" and cs: "find_sub p cs = None"
    by (auto split: if_splits)
  have "\<not> prefix p ((c # cs) @ p @ rest)"
  proof
    assume "prefix p ((c # cs) @ p @ rest)"
    from straddle[OF this np _ assms(2)] have "hd (p @ rest) \<in> set (tl p)" by simp
    then show False using assms(2,3) by simp
  qed
  then show ?case using Cons.IH[OF cs] by simp
qed

lemma no_prefix_region:
  assumes "find_sub p a = None" "p \<noteq> []" "b = [] \<or> hd b \<notin> set (tl p)" "i < length a"
  shows "\<not> prefix p (drop i a @ b)"
proof
  assume pr: "prefix p (drop i a @ b)"
  have np: "\<not> prefix p (drop i a)" using assms(1,4) by (simp add: find_sub_None_iff)
  have "drop i a \<noteq> []" using assms(4) by simp
  from straddle[OF pr np this assms(2)] assms(3) show False by simp
qed

lemma matchParamStart_no_prefix: "\<not> prefix paramOpen s \<Longrightarrow> matchParamStart s = None"
  by (simp add: matchParamStart_def)

lemma paramOpen_facts: "paramOpen \<noteq> []" "60 \<notin> set (tl paramOpen)" "hd paramOpen = 60" "length paramOpen = 10"
  by (simp_all add: paramOpen_def js_def)

lemma endTag_facts: "endTag \<noteq> []" "hd endTag \<notin> set (tl endTag)" "hd endTag = 60" "60 \<notin> set (tl endTag)"
  "length endTag = 12"
  by (simp_all add: endTag_def js_def)

text \<open>No open tag starts inside a text free of \<open><parameter\<close> that is followed by \<open><\<close> or by nothing.\<close>

lemma no_match_region:
  assumes "find_sub paramOpen a = None" "b = [] \<or> hd b = 60" "i < length a"
  shows "matchParamStart (drop i (a @ b)) = None"
proof -
  have "\<not> prefix paramOpen (drop i a @ b)"
    using assms paramOpen_facts by (intro no_prefix_region) auto
  then show ?thesis using assms(3) by (intro matchParamStart_no_prefix) simp
qed

lemma no_match_endTag:
  assumes "i < length endTag"
  shows "matchParamStart (drop i (endTag @ rest)) = None"
proof -
  have "\<not> prefix paramOpen (drop i endTag @ rest)"
  proof (cases i)
    case 0
    then show ?thesis by (simp add: endTag_def paramOpen_def js_def)
  next
    case (Suc k)
    have ne: "drop i endTag \<noteq> []" using assms by simp
    have k: "k < length (tl endTag)" using assms Suc by simp
    have "hd (drop i endTag) = endTag ! i" using assms by (simp add: hd_drop_conv_nth)
    also have "\<dots> = tl endTag ! k" using Suc k by (simp add: nth_tl)
    finally have "hd (drop i endTag) \<in> set (tl endTag)" using k by (metis nth_mem)
    then have "hd (drop i endTag) \<noteq> 60" using endTag_facts(4) by auto
    then have "hd (drop i endTag @ rest) \<noteq> hd paramOpen" using ne paramOpen_facts(3) by simp
    moreover have "prefix paramOpen (drop i endTag @ rest) \<Longrightarrow>
        hd (drop i endTag @ rest) = hd paramOpen"
      using paramOpen_facts(1) by (auto simp: prefix_def)
    ultimately show ?thesis by blast
  qed
  then show ?thesis using assms by (intro matchParamStart_no_prefix) simp
qed


lemma exec_skip:
  assumes "\<forall>j. i \<le> j \<and> j < k \<longrightarrow> matchParamStart (drop j s) = None" "i \<le> k" "k \<le> length s"
  shows "execParamStart s i = execParamStart s k"
  using assms
proof (induction "k - i" arbitrary: i)
  case 0
  then show ?case by simp
next
  case (Suc d)
  then have lt: "i < k" by simp
  have m: "matchParamStart (drop i s) = None" using Suc.prems(1) lt by simp
  have "execParamStart s i = execParamStart s (Suc i)"
    using lt Suc.prems(3) m by (simp add: execParamStart.simps[of s i])
  also have "\<dots> = execParamStart s k"
    using Suc.hyps(2) Suc.prems lt by (intro Suc.hyps(1)) auto
  finally show ?case .
qed

lemma exec_shift:
  "execParamStart (a @ s) (length a + i) =
     map_option (\<lambda>(idx, n, l). (length a + idx, n, l)) (execParamStart s i)"
proof (induction s i rule: execParamStart.induct)
  case (1 s i)
  show ?case
  proof (cases "length s \<le> i")
    case True
    then show ?thesis
      by (simp add: execParamStart.simps[of s i] execParamStart.simps[of "a @ s" "length a + i"])
  next
    case False
    show ?thesis
    proof (cases "matchParamStart (drop i s)")
      case None
      from "1.IH"[OF False None]
      have "execParamStart (a @ s) (Suc (length a + i)) =
              map_option (\<lambda>(idx, n, l). (length a + idx, n, l)) (execParamStart s (Suc i))"
        by simp
      then show ?thesis using False None
        by (simp add: execParamStart.simps[of s i] execParamStart.simps[of "a @ s" "length a + i"])
    next
      case (Some r)
      then show ?thesis using False
        by (simp add: execParamStart.simps[of s i] execParamStart.simps[of "a @ s" "length a + i"]
            split: prod.splits)
    qed
  qed
qed

lemma exec_here:
  "matchParamStart s = Some (n, l) \<Longrightarrow> execParamStart s 0 = Some (0, n, l)"
proof -
  assume m: "matchParamStart s = Some (n, l)"
  from matchParamStart_length[OF m] have "\<not> length s \<le> 0" by auto
  then show ?thesis using m by (simp add: execParamStart.simps[of s 0])
qed

lemma exec_none:
  assumes "\<forall>j<length s. matchParamStart (drop j s) = None"
  shows "execParamStart s 0 = None"
proof -
  have "execParamStart s 0 = execParamStart s (length s)"
    using assms by (intro exec_skip) auto
  then show ?thesis by (simp add: execParamStart.simps[of s "length s"])
qed

lemma indexOf_shift:
  "indexOf (a @ s) p (length a + j) = map_option (\<lambda>k. length a + k) (indexOf s p j)"
proof -
  have "min (length a + j) (length a + length s) = length a + min j (length s)" by simp
  then show ?thesis
    by (cases "find_sub p (drop (min j (length s)) s)") (simp_all add: indexOf_def Let_def)
qed

lemma substring_shift:
  "substring (a @ s) (length a + i) (length a + j) = substring s i j"
proof -
  have 1: "min (min (length a + i) (length a + j)) (length a + length s) =
        length a + min (min i j) (length s)" by simp
  have 2: "min (max (length a + i) (length a + j)) (length a + length s) =
        length a + min (max i j) (length s)" by simp
  show ?thesis unfolding substring_def Let_def length_append 1 2 by simp
qed

lemma substringFrom_shift: "substringFrom (a @ s) (length a + i) = substringFrom s i"
  by (simp add: substringFrom_def)

lemma paramMatches_shift:
  "paramMatches (a @ s) (length a + i) = paramMatches s i"
proof (induction s i rule: paramMatches.induct)
  case (1 s i)
  show ?case
  proof (cases "execParamStart s i")
    case None
    then show ?thesis
      by (simp add: paramMatches.simps[of s i] paramMatches.simps[of "a @ s" "length a + i"] exec_shift)
  next
    case (Some r)
    obtain idx n l where r: "r = (idx, n, l)" by (cases r)
    have ih: "paramMatches (a @ s) (length a + (idx + l)) = paramMatches s (idx + l)"
      using "1.IH"[OF Some[unfolded r] refl refl refl] by simp
    have e: "execParamStart (a @ s) (length a + i) = Some (length a + idx, n, l)"
      using Some r by (simp add: exec_shift)
    have a1: "length a + idx + l = length a + (idx + l)" by simp
    show ?thesis
      unfolding paramMatches.simps[of s i] paramMatches.simps[of "a @ s" "length a + i"] e Some r
      by (simp add: Let_def a1 indexOf_shift substring_shift substringFrom_shift ih
          split: option.splits)
  qed
qed

lemma paramMatches_skip:
  assumes "\<forall>j<k. matchParamStart (drop j s) = None" "k \<le> length s"
  shows "paramMatches s 0 = paramMatches (drop k s) 0"
proof -
  have "execParamStart s 0 = execParamStart s k" using assms by (intro exec_skip) auto
  then have "paramMatches s 0 = paramMatches s k"
    by (simp add: paramMatches.simps[of s 0] paramMatches.simps[of s k])
  also have "\<dots> = paramMatches (take k s @ drop k s) (length (take k s) + 0)"
    using assms(2) by simp
  also have "\<dots> = paramMatches (drop k s) 0" by (rule paramMatches_shift)
  finally show ?thesis .
qed

subsection \<open>The matches of a well-formed stream\<close>

lemma takeWhile_stop:
  assumes "\<forall>x\<in>set xs. P x" "\<not> P y"
  shows "takeWhile P (xs @ y # ys) = xs" "dropWhile P (xs @ y # ys) = y # ys"
  using assms by (simp_all add: takeWhile_append2 dropWhile_append2)

lemma nameEq_facts: "nameEq = 110 # tl nameEq" "\<not> is_space 110" "length nameEq = 6"
  by (simp_all add: nameEq_def js_def is_space_def)

lemma matchParamStart_openTag:
  assumes "srcSpaces p \<noteq> []" "list_all is_space (srcSpaces p)" "srcName p \<noteq> []"
    "34 \<notin> set (srcName p)" "62 \<notin> set (srcAttrs p)"
  shows "matchParamStart (openTagOf p @ rest) = Some (srcName p, length (openTagOf p))"
proof -
  let ?s = "openTagOf p @ rest"
  let ?r3 = "srcName p @ 34 # srcAttrs p @ 62 # rest"
  let ?r2 = "nameEq @ ?r3"
  let ?r1 = "srcSpaces p @ ?r2"
  have s: "?s = paramOpen @ ?r1" by (simp add: openTagOf_def)
  have r1: "drop (length paramOpen) ?s = ?r1" unfolding s by simp
  have sp: "\<forall>x\<in>set (srcSpaces p). is_space x" using assms(2) by (simp add: list_all_iff)
  have r2': "?r1 = srcSpaces p @ 110 # (tl nameEq @ ?r3)"
    using nameEq_facts(1) by (metis append_Cons)
  have ws: "takeWhile is_space ?r1 = srcSpaces p"
    unfolding r2' by (rule takeWhile_stop(1)[OF sp nameEq_facts(2)])
  have "dropWhile is_space ?r1 = 110 # (tl nameEq @ ?r3)"
    unfolding r2' by (rule takeWhile_stop(2)[OF sp nameEq_facts(2)])
  also have "\<dots> = ?r2" using nameEq_facts(1) by (metis append_Cons)
  finally have r2: "dropWhile is_space ?r1 = ?r2" .
  have r3: "drop (length nameEq) ?r2 = ?r3" by simp
  have nq: "\<forall>x\<in>set (srcName p). x \<noteq> 34" using assms(4) by auto
  have nm: "takeWhile (\<lambda>c. c \<noteq> 34) ?r3 = srcName p"
    and r4: "dropWhile (\<lambda>c. c \<noteq> 34) ?r3 = 34 # srcAttrs p @ 62 # rest"
    using takeWhile_stop[OF nq, of 34] by simp_all
  have na: "\<forall>x\<in>set (srcAttrs p). x \<noteq> 62" using assms(5) by auto
  have at: "takeWhile (\<lambda>c. c \<noteq> 62) (srcAttrs p @ 62 # rest) = srcAttrs p"
    and r6: "dropWhile (\<lambda>c. c \<noteq> 62) (srcAttrs p @ 62 # rest) = 62 # rest"
    using takeWhile_stop[OF na, of 62] by simp_all
  have pre: "prefix paramOpen ?s" unfolding s by simp
  have pre2: "prefix nameEq ?r2" by simp
  show ?thesis
    unfolding matchParamStart_def Let_def r1 ws r2 r3 nm r4 list.sel at r6
    using pre pre2 assms(1,3) by (simp add: openTagOf_def)
qed


lemma openTagOf_hd: "hd (openTagOf p @ rest) = 60" "openTagOf p @ rest \<noteq> []"
  by (simp_all add: openTagOf_def paramOpen_def js_def)

lemma paramMatches_no_open:
  assumes "noOpen post"
  shows "paramMatches post 0 = []"
proof -
  have "\<forall>j<length post. matchParamStart (drop j post) = None"
    using no_match_region[of post "[]"] assms by (simp add: noOpen_def)
  then have "execParamStart post 0 = None" by (rule exec_none)
  then show ?thesis by (simp add: paramMatches.simps[of post 0])
qed

lemma paramMatches_gap:
  assumes "noOpen g"
  shows "paramMatches (g @ openTagOf p @ rest) 0 = paramMatches (openTagOf p @ rest) 0"
proof -
  have "\<forall>j<length g. matchParamStart (drop j (g @ openTagOf p @ rest)) = None"
    using no_match_region[of g "openTagOf p @ rest"] assms openTagOf_hd[of p rest]
    by (simp add: noOpen_def)
  from paramMatches_skip[OF this] show ?thesis by simp
qed

lemma paramMatches_after_value:
  assumes "noOpen v"
  shows "paramMatches (v @ endTag @ rest) 0 = paramMatches rest 0"
proof -
  have "\<forall>j<length v + length endTag. matchParamStart (drop j (v @ endTag @ rest)) = None"
  proof (intro allI impI)
    fix j assume j: "j < length v + length endTag"
    show "matchParamStart (drop j (v @ endTag @ rest)) = None"
    proof (cases "j < length v")
      case True
      then show ?thesis
        using no_match_region[of v "endTag @ rest" j] assms endTag_facts(1,3)
        by (simp add: noOpen_def)
    next
      case False
      then have "drop j (v @ endTag @ rest) = drop (j - length v) (endTag @ rest)" by simp
      moreover have "j - length v < length endTag" using j False by simp
      ultimately show ?thesis using no_match_endTag by simp
    qed
  qed
  from paramMatches_skip[OF this] show ?thesis by simp
qed

lemma wfParam_match:
  assumes "wfParam p"
  shows "execParamStart (openTagOf p @ rest) 0 = Some (0, srcName p, length (openTagOf p))"
  using assms by (intro exec_here matchParamStart_openTag) (simp_all add: wfParam_def)

lemma paramMatches_closed:
  assumes "wfParam p"
  shows "paramMatches (closedText p @ rest) 0 =
           (srcName p, paramValueText (srcValue p), False) # paramMatches rest 0"
proof -
  let ?L = "length (openTagOf p)"
  let ?v = "srcValue p"
  let ?body = "?v @ endTag @ rest"
  let ?s1 = "openTagOf p @ ?body"
  have g: "noOpen (srcGap p)" and v: "noOpen ?v" and e: "find_sub endTag ?v = None"
    using assms by (simp_all add: wfParam_def)
  have a: "paramMatches (closedText p @ rest) 0 = paramMatches ?s1 0"
    using paramMatches_gap[OF g, of p ?body] by (simp add: closedText_def)
  have ex: "execParamStart ?s1 0 = Some (0, srcName p, ?L)" by (rule wfParam_match[OF assms])
  have "indexOf ?s1 endTag (?L + 0) = map_option (\<lambda>k. ?L + k) (indexOf ?body endTag 0)"
    by (rule indexOf_shift)
  moreover have "indexOf ?body endTag 0 = Some (length ?v)"
    using find_sub_append_first[OF e endTag_facts(1,2), of rest] by (simp add: indexOf_def)
  ultimately have io: "indexOf ?s1 endTag ?L = Some (?L + length ?v)" by simp
  have "substring ?s1 (?L + 0) (?L + length ?v) = substring ?body 0 (length ?v)"
    by (rule substring_shift)
  then have sub: "substring ?s1 ?L (?L + length ?v) = ?v" by (simp add: substring_def)
  have "paramMatches ?s1 (?L + 0) = paramMatches ?body 0" by (rule paramMatches_shift)
  then have tl: "paramMatches ?s1 ?L = paramMatches rest 0"
    using paramMatches_after_value[OF v, of rest] by simp
  have "paramMatches ?s1 0 = (srcName p, paramValueText ?v, False) # paramMatches ?s1 ?L"
    unfolding paramMatches.simps[of ?s1 0] ex by (simp add: Let_def io sub)
  then show ?thesis using a tl by simp
qed

lemma paramMatches_open:
  assumes "wfParam p"
  shows "paramMatches (openText p) 0 = [(srcName p, paramValueText (srcValue p), True)]"
proof -
  let ?L = "length (openTagOf p)"
  let ?v = "srcValue p"
  let ?s1 = "openTagOf p @ ?v"
  have g: "noOpen (srcGap p)" and v: "noOpen ?v" and e: "find_sub endTag ?v = None"
    using assms by (simp_all add: wfParam_def)
  have a: "paramMatches (openText p) 0 = paramMatches ?s1 0"
    using paramMatches_gap[OF g, of p ?v] by (simp add: openText_def)
  have ex: "execParamStart ?s1 0 = Some (0, srcName p, ?L)" by (rule wfParam_match[OF assms])
  have "indexOf ?s1 endTag (?L + 0) = map_option (\<lambda>k. ?L + k) (indexOf ?v endTag 0)"
    by (rule indexOf_shift)
  moreover have "indexOf ?v endTag 0 = None" using e by (simp add: indexOf_def)
  ultimately have io: "indexOf ?s1 endTag ?L = None" by simp
  have sub: "substringFrom ?s1 ?L = ?v" by (simp add: substringFrom_def)
  have "paramMatches ?s1 (?L + 0) = paramMatches ?v 0" by (rule paramMatches_shift)
  then have tl: "paramMatches ?s1 ?L = []" using paramMatches_no_open[OF v] by simp
  have "paramMatches ?s1 0 = (srcName p, paramValueText ?v, True) # paramMatches ?s1 ?L"
    unfolding paramMatches.simps[of ?s1 0] ex by (simp add: Let_def io sub)
  then show ?thesis using a tl by simp
qed

section \<open>The parameter elements of a rendered block\<close>

text \<open>
  What \<^verbatim>\<open>querySelector\<close> does to the selector text before it reads tokens:
  a carriage return, a form feed and the pair carriage return, line feed become one line
  feed, and NUL becomes U+FFFD. Every other code unit is kept as it is, a surrogate too,
  paired or not: the selector and the attribute it is compared with are both strings of
  UTF-16 code units.
\<close>

fun cssPreprocess :: "jsstr \<Rightarrow> jsstr" where
  "cssPreprocess [] = []"
| "cssPreprocess [c] =
     (if c = 13 \<or> c = 12 then [10]
      else if c = 0 then [65533]
      else [c])"
| "cssPreprocess (c # d # r) =
     (if c = 13 \<and> d = 10 then 10 # cssPreprocess r
      else if c = 13 \<or> c = 12 then 10 # cssPreprocess (d # r)
      else if c = 0 then 65533 # cssPreprocess (d # r)
      else c # cssPreprocess (d # r))"

definition isHexDigit :: "nat \<Rightarrow> bool" where
  "isHexDigit c \<longleftrightarrow> (48 \<le> c \<and> c \<le> 57) \<or> (65 \<le> c \<and> c \<le> 70) \<or> (97 \<le> c \<and> c \<le> 102)"

definition hexValue :: "nat \<Rightarrow> nat" where
  "hexValue c = (if c \<le> 57 then c - 48 else if c \<le> 70 then c - 55 else c - 87)"

definition hexNumber :: "jsstr \<Rightarrow> nat" where
  "hexNumber ds = foldl (\<lambda>n d. 16 * n + hexValue d) 0 ds"

definition codePointUnits :: "nat \<Rightarrow> jsstr" where
  "codePointUnits v =
     (if v = 0 \<or> (55296 \<le> v \<and> v \<le> 57343) \<or> v > 1114111 then [65533]
      else if v < 65536 then [v]
      else [55296 + (v - 65536) div 1024, 56320 + (v - 65536) mod 1024])"

definition isCssWhitespace :: "nat \<Rightarrow> bool" where
  "isCssWhitespace c \<longleftrightarrow> c = 10 \<or> c = 9 \<or> c = 32"

text \<open>
  A string token of CSS (CSS Syntax, consume a string token), read from just after the opening
  double quote: its value and the input left after it. A line break inside the string makes
  it a bad string; the end of the input ends the string like the closing quote does; a
  backslash escapes the next code point, or up to six hexadecimal digits and one white space
  after them.
\<close>

datatype css_string = BadString | StringToken jsstr jsstr

fun consValue :: "jsstr \<Rightarrow> css_string \<Rightarrow> css_string" where
  "consValue u BadString = BadString"
| "consValue u (StringToken v rest) = StringToken (u @ v) rest"

function cssString :: "jsstr \<Rightarrow> css_string" where
  "cssString [] = StringToken [] []"
| "cssString (c # r) =
     (if c = 34 then StringToken [] r
      else if c = 10 then BadString
      else if c = 92 then
        (case r of
           [] \<Rightarrow> StringToken [] []
         | e # r' \<Rightarrow>
             (if e = 10 then cssString r'
              else if isHexDigit e then
                (let digits = takeWhile isHexDigit (take 6 r);
                     after = drop (length digits) r;
                     after' = (case after of
                                 [] \<Rightarrow> []
                               | s # t \<Rightarrow> if isCssWhitespace s then t else after)
                 in consValue (codePointUnits (hexNumber digits)) (cssString after'))
              else consValue [e] (cssString r')))
      else consValue [c] (cssString r))"
  by pat_completeness auto
termination
proof (relation "measure length")
  show "wf (measure length)" by simp
next
  fix c :: nat and r e r' digits after s t after'
  assume "r = e # r'" "isHexDigit e" "digits = takeWhile isHexDigit (take 6 r)"
    "after = drop (length digits) r"
    "after' = (case after of [] \<Rightarrow> [] | s # t \<Rightarrow> if isCssWhitespace s then t else after)"
  then have "length after \<le> length r" by simp
  moreover have "length after' \<le> length after"
    using \<open>after' = _\<close> by (cases after) auto
  ultimately show "(after', c # r) \<in> measure length" by simp
qed auto


declare cssString.simps [simp del]

text \<open>
  What the selector \<^verbatim>\<open>[data-param-id="${paramId}"]\<close> asks the attribute to
  be. The identifier is pasted between the quotes as it is, so the selector holds the
  identifier only when it has no backslash, line break, NUL or double quote.
  \<^item> \<open>AsksFor v\<close>: the string is closed by the quote the template supplies (or runs to
    the end of the selector, which closes it as well), and the selector matches the elements
    whose attribute is \<open>v\<close>.
  \<^item> \<open>DoesNotParse\<close>: a line break inside the string makes it a bad string; no selector
    holds one, and \<^verbatim>\<open>querySelector\<close> raises a \<^verbatim>\<open>SyntaxError\<close>.
  \<^item> \<open>NotFollowed\<close>: a double quote of the identifier closes the string early. What the
    selector then means depends on the text after that quote, which may spell further
    selectors that parse and match. The model does not follow such selectors.
\<close>

datatype selector_value = AsksFor jsstr | DoesNotParse | NotFollowed

definition paramSelectorValue :: "jsstr \<Rightarrow> selector_value" where
  "paramSelectorValue paramId =
     (case cssString (cssPreprocess (paramId @ [34, 93])) of
        BadString \<Rightarrow> DoesNotParse
      | StringToken v rest \<Rightarrow> (if rest = [93] \<or> rest = [] then AsksFor v else NotFollowed))"

text \<open>
  The elements \<^verbatim>\<open>createOrUpdateParamElement\<close> looks up, creates and updates:
  the \<^verbatim>\<open>.param-name\<close> and \<^verbatim>\<open>.param-value\<close> elements, with their
  \<^verbatim>\<open>data-param-id\<close> and \<^verbatim>\<open>data-param-name\<close> attributes, their
  own text, the text of the \<^verbatim>\<open>pre\<close> child of a streaming value, the
  \<^verbatim>\<open>data-streaming\<close> attribute, the class \<^verbatim>\<open>streaming-param-name\<close>
  and the value that \<^verbatim>\<open>data-param-value\<close> holds (as its JSON text). \<open>containerNodes\<close> are the
  children of the block's parameter container in order; \<open>documentNodes\<close> are the
  elements elsewhere in the document, which the second lookup reaches. Scroll positions and
  the timers that clear the streaming marks are left out.
\<close>

datatype node_kind = ParamNameNode | ParamValueNode

record pnode =
  nodeKind :: node_kind
  dataParamId :: jsstr
  dataParamName :: "jsstr option"
  nodeText :: jsstr
  preText :: "jsstr option"
  dataStreaming :: bool
  streamingParamName :: bool
  dataParamValue :: "jsstr option"

record pdom =
  containerNodes :: "pnode list"
  documentNodes :: "pnode list"

text \<open>
  \<open>SyntaxError\<close> is the exception of \<^verbatim>\<open>querySelector\<close>.
  \<open>SelectorNotModelled\<close> is no behaviour of the code: it marks a call whose selector
  the model does not follow.
\<close>

datatype dom_error = SyntaxError | SelectorNotModelled

datatype node_ref = InContainer nat | InDocument nat

fun firstIndex :: "('a \<Rightarrow> bool) \<Rightarrow> 'a list \<Rightarrow> nat option" where
  "firstIndex P [] = None"
| "firstIndex P (x # xs) = (if P x then Some 0 else map_option Suc (firstIndex P xs))"

definition selects :: "node_kind \<Rightarrow> jsstr \<Rightarrow> pnode \<Rightarrow> bool" where
  "selects k v n \<longleftrightarrow> nodeKind n = k \<and> dataParamId n = v"

definition lookupParamNode :: "node_kind \<Rightarrow> jsstr \<Rightarrow> pdom \<Rightarrow> node_ref option" where
  "lookupParamNode k v d =
     (case firstIndex (selects k v) (containerNodes d) of
        Some i \<Rightarrow> Some (InContainer i)
      | None \<Rightarrow> map_option InDocument (firstIndex (selects k v) (documentNodes d)))"

definition getNode :: "pdom \<Rightarrow> node_ref \<Rightarrow> pnode" where
  "getNode d r = (case r of InContainer i \<Rightarrow> containerNodes d ! i | InDocument i \<Rightarrow> documentNodes d ! i)"

definition updateNode :: "node_ref \<Rightarrow> (pnode \<Rightarrow> pnode) \<Rightarrow> pdom \<Rightarrow> pdom" where
  "updateNode r f d =
     (case r of
        InContainer i \<Rightarrow> d\<lparr>containerNodes := (containerNodes d)[i := f (containerNodes d ! i)]\<rparr>
      | InDocument i \<Rightarrow> d\<lparr>documentNodes := (documentNodes d)[i := f (documentNodes d ! i)]\<rparr>)"

definition appendChild :: "pnode \<Rightarrow> pdom \<Rightarrow> node_ref \<times> pdom" where
  "appendChild n d = (InContainer (length (containerNodes d)),
                      d\<lparr>containerNodes := containerNodes d @ [n]\<rparr>)"

definition newParamName :: "jsstr \<Rightarrow> jsstr \<Rightarrow> pnode" where
  "newParamName paramId name =
     \<lparr>nodeKind = ParamNameNode, dataParamId = paramId, dataParamName = None, nodeText = name,
      preText = None, dataStreaming = False, streamingParamName = False, dataParamValue = None\<rparr>"

definition newParamValue :: "jsstr \<Rightarrow> jsstr \<Rightarrow> pnode" where
  "newParamValue paramId name =
     \<lparr>nodeKind = ParamValueNode, dataParamId = paramId, dataParamName = Some name, nodeText = [],
      preText = None, dataStreaming = False, streamingParamName = False, dataParamValue = None\<rparr>"

definition setValueDisplay :: "bool \<Rightarrow> jsstr \<Rightarrow> pnode \<Rightarrow> pnode" where
  "setValueDisplay isStreaming displayValue v =
     (if isStreaming \<or> dataStreaming v
      then (case preText v of
              None \<Rightarrow> v\<lparr>nodeText := [], preText := Some displayValue\<rparr>
            | Some _ \<Rightarrow> v\<lparr>preText := Some displayValue\<rparr>)
      else v\<lparr>nodeText := displayValue, preText := None\<rparr>)"

text \<open>
  \<^verbatim>\<open>createOrUpdateParamElement(container, name, value, blockId, isNewRender, isStreaming)\<close>
  for a string value: both lookups by selector (first in the container, then in the
  document), creation of what was not found, the value display, and the streaming marks.
  The first \<^verbatim>\<open>querySelector\<close> (line 893) raises before anything is created
  when the selector does not parse; nothing in \<^verbatim>\<open>renderFunctionCall\<close> catches
  the exception.
\<close>

definition createOrUpdateParamElement ::
  "jsstr \<Rightarrow> jsstr \<Rightarrow> jsstr \<Rightarrow> bool \<Rightarrow> bool \<Rightarrow> pdom \<Rightarrow> dom_error + pdom" where
  "createOrUpdateParamElement name value blkId isNewRender isStreaming d =
     (let paramId = blkId @ [45] @ name
      in case paramSelectorValue paramId of
           DoesNotParse \<Rightarrow> Inl SyntaxError
         | NotFollowed \<Rightarrow> Inl SelectorNotModelled
         | AsksFor sel \<Rightarrow>
             (let foundName = lookupParamNode ParamNameNode sel d;
                  foundValue = lookupParamNode ParamValueNode sel d;
                  (nameRef, d1) = (case foundName of
                                     Some r \<Rightarrow> (r, d)
                                   | None \<Rightarrow> appendChild (newParamName paramId name) d);
                  (valueRef, d2) = (case foundValue of
                                      Some r \<Rightarrow> (r, d1)
                                    | None \<Rightarrow> appendChild (newParamValue paramId name) d1);
                  d3 = updateNode valueRef
                         (\<lambda>v. (setValueDisplay isStreaming value v)\<lparr>dataParamValue := Some value\<rparr>) d2
              in Inr (if isStreaming
                      then updateNode valueRef (\<lambda>v. v\<lparr>dataStreaming := True\<rparr>)
                             (updateNode nameRef (\<lambda>n. n\<lparr>streamingParamName := True\<rparr>) d3)
                      else if streamingParamName (getNode d3 nameRef)
                      then updateNode valueRef (\<lambda>v. v\<lparr>dataStreaming := False\<rparr>)
                             (updateNode nameRef (\<lambda>n. n\<lparr>streamingParamName := False\<rparr>) d3)
                      else d3)))"

text \<open>
  The loop \<^verbatim>\<open>while ((match = paramStartRegex.exec(rawContent)) !== null)\<close>
  of lines 563 to 595, from the given \<open>lastIndex\<close> on: for every match it computes the
  value and calls \<^verbatim>\<open>createOrUpdateParamElement\<close>; an exception raised by that
  call leaves the loop and \<^verbatim>\<open>renderFunctionCall\<close>. The record
  \<^verbatim>\<open>partialParameters\<close> that line 590 fills is read nowhere and is left out.
\<close>

function parameterLoop :: "jsstr \<Rightarrow> nat \<Rightarrow> jsstr \<Rightarrow> bool \<Rightarrow> pdom \<Rightarrow> dom_error + pdom" where
  "parameterLoop rawContent lastIndex blkId isNewRender d =
     (case execParamStart rawContent lastIndex of
        None \<Rightarrow> Inr d
      | Some (index, paramName, matchLength) \<Rightarrow>
          (let startIndex = index + matchLength;
               endTagIndex = indexOf rawContent endTag startIndex;
               isParamStreaming = (endTagIndex = None);
               extractedValue =
                 (case endTagIndex of
                    Some e \<Rightarrow> substring rawContent startIndex e
                  | None \<Rightarrow> substringFrom rawContent startIndex)
           in case createOrUpdateParamElement paramName (paramValueText extractedValue) blkId
                     isNewRender isParamStreaming d of
                Inl err \<Rightarrow> Inl err
              | Inr d' \<Rightarrow> parameterLoop rawContent startIndex blkId isNewRender d'))"
  by pat_completeness auto
termination
  by (relation "measure (\<lambda>(s, i, b, n, d). length s - i)") (auto dest!: execParamStart_bounds)

declare parameterLoop.simps [simp del]

text \<open>The loop as \<^verbatim>\<open>renderFunctionCall\<close> runs it, with a fresh regular expression.\<close>

definition parameterPass :: "jsstr \<Rightarrow> bool \<Rightarrow> jsstr \<Rightarrow> pdom \<Rightarrow> dom_error + pdom" where
  "parameterPass blkId isNewRender rawContent d = parameterLoop rawContent 0 blkId isNewRender d"

text \<open>
  The calls of line 594 for a given list of triples, in order, up to the first that raises.
\<close>

fun renderParams :: "jsstr \<Rightarrow> bool \<Rightarrow> (jsstr \<times> jsstr \<times> bool) list \<Rightarrow> pdom \<Rightarrow> dom_error + pdom" where
  "renderParams blkId isNewRender [] d = Inr d"
| "renderParams blkId isNewRender ((name, value, isStreaming) # es) d =
     (case createOrUpdateParamElement name value blkId isNewRender isStreaming d of
        Inl e \<Rightarrow> Inl e
      | Inr d' \<Rightarrow> renderParams blkId isNewRender es d')"

definition countNodes :: "node_kind \<Rightarrow> pdom \<Rightarrow> nat" where
  "countNodes k d = length (filter (\<lambda>n. nodeKind n = k) (containerNodes d))"

text \<open>
  What a lookup can see of an element: its kind and its \<^verbatim>\<open>data-param-id\<close>.
  \<open>present\<close> says that the container or the document holds such an element.
\<close>

definition nodeKey :: "pnode \<Rightarrow> node_kind \<times> jsstr" where
  "nodeKey n = (nodeKind n, dataParamId n)"

definition containerKeys :: "pdom \<Rightarrow> (node_kind \<times> jsstr) list" where
  "containerKeys d = map nodeKey (containerNodes d)"

definition documentKeys :: "pdom \<Rightarrow> (node_kind \<times> jsstr) list" where
  "documentKeys d = map nodeKey (documentNodes d)"

definition present :: "node_kind \<Rightarrow> jsstr \<Rightarrow> pdom \<Rightarrow> bool" where
  "present k v d \<longleftrightarrow> (k, v) \<in> set (containerKeys d) \<union> set (documentKeys d)"

text \<open>
  An identifier is safe when its selector asks for the identifier itself; a code unit is
  plain when it is no NUL, line break (line feed, form feed, carriage return), double quote
  or backslash.
\<close>

definition selectorSafe :: "jsstr \<Rightarrow> bool" where
  "selectorSafe paramId \<longleftrightarrow> paramSelectorValue paramId = AsksFor paramId"

definition allSafe :: "jsstr \<Rightarrow> (jsstr \<times> jsstr \<times> bool) list \<Rightarrow> bool" where
  "allSafe b es = list_all (\<lambda>(n, v, s). selectorSafe (b @ [45] @ n)) es"

definition allPresent :: "jsstr \<Rightarrow> (jsstr \<times> jsstr \<times> bool) list \<Rightarrow> pdom \<Rightarrow> bool" where
  "allPresent b es d =
     list_all (\<lambda>(n, v, s). present ParamNameNode (b @ [45] @ n) d \<and>
                            present ParamValueNode (b @ [45] @ n) d) es"

definition plainUnit :: "nat \<Rightarrow> bool" where
  "plainUnit c \<longleftrightarrow> c \<noteq> 0 \<and> c \<noteq> 10 \<and> c \<noteq> 12 \<and> c \<noteq> 13 \<and> c \<noteq> 34 \<and> c \<noteq> 92"

section \<open>Concrete pages and calls\<close>

text \<open>
  The scenario of the specification: the text
  \<^verbatim>\<open><function_calls><invoke name="search" call_id="c1"><parameter name="q">hel\<close>
  and, later, the same text completed to
  \<^verbatim>\<open>...hel lo</parameter></invoke></function_calls>\<close>.
\<close>

definition invokeHead :: jsstr where
  "invokeHead = js ''<function_calls><invoke name='' @ [34] @ js ''search'' @ [34] @
     js '' call_id='' @ [34] @ js ''c1'' @ [34, 62]"

definition queryParam :: "jsstr \<Rightarrow> param_src" where
  "queryParam v = \<lparr>srcGap = invokeHead, srcSpaces = [32], srcName = js ''q'', srcAttrs = [],
     srcValue = v\<rparr>"

definition invokeTail :: jsstr where
  "invokeTail = js ''</invoke></function_calls>''"

text \<open>A parameter whose name holds a backslash, in a complete call.\<close>

definition backslashName :: jsstr where
  "backslashName = js ''dir'' @ [92] @ js ''name''"

definition backslashParam :: param_src where
  "backslashParam = \<lparr>srcGap = invokeHead, srcSpaces = [32], srcName = backslashName, srcAttrs = [],
     srcValue = js ''1''\<rparr>"

definition backslashText :: jsstr where
  "backslashText = invokeHead @ js ''<parameter name='' @ [34] @ backslashName @ [34, 62] @ js ''1'' @
     js ''</parameter>'' @ invokeTail"

text \<open>
  A complete call whose one parameter has a name with a line break in it,
  \<^verbatim>\<open><parameter name="a\<close>, line feed, \<^verbatim>\<open>b">1</parameter>\<close>.
\<close>

definition lineBreakName :: jsstr where
  "lineBreakName = js ''a'' @ [10] @ js ''b''"

definition lineBreakParam :: param_src where
  "lineBreakParam = \<lparr>srcGap = invokeHead, srcSpaces = [32], srcName = lineBreakName, srcAttrs = [],
     srcValue = js ''1''\<rparr>"

definition lineBreakText :: jsstr where
  "lineBreakText = invokeHead @ js ''<parameter name='' @ [34] @ lineBreakName @ [34, 62] @ js ''1'' @
     js ''</parameter>'' @ invokeTail"

definition emptyDom :: pdom where
  "emptyDom = \<lparr>containerNodes = [], documentNodes = []\<rparr>"

text \<open>The parameter container after the first rendering of that call in block \<open>b1\<close>.\<close>

definition onceRendered :: pdom where
  "onceRendered = \<lparr>containerNodes =
     [newParamName (js ''b1'' @ [45] @ backslashName) backslashName,
      (newParamValue (js ''b1'' @ [45] @ backslashName) backslashName)
        \<lparr>nodeText := js ''1'', dataParamValue := Some (js ''1'')\<rparr>],
     documentNodes = []\<rparr>"

text \<open>The activations (clicks) recorded on a page, in order, by button.\<close>

definition activations :: "world \<Rightarrow> nat list" where
  "activations w = concat (map (\<lambda>e. case e of Click i \<Rightarrow> [i] | _ \<Rightarrow> []) (events w))"

text \<open>A page with no setting, no stored execution, an empty tracker and no button.\<close>

definition emptyPage :: world where
  "emptyPage = \<lparr>toggleState = None, prevExec = (\<lambda>_ _ _. False), prevExecLegacy = (\<lambda>_ _. False),
     attempts = Map.empty, executed = [], executedFunctions = [], buttons = [], events = []\<rparr>"

text \<open>An enabled execute button of the block \<open>bid\<close>, which shows the function \<open>search\<close>.\<close>

definition runButton :: "nat \<Rightarrow> jsstr \<Rightarrow> button" where
  "runButton i bid = \<lparr>btnId = i, container = Some bid, inDocument = True, disabled = False,
     autoExecReady = None, parentBlock = Some (Some (js ''search''), Some bid), clickThrows = False\<rparr>"

text \<open>The call \<open>search\<close> with call identifier \<open>c1\<close> and signature \<open>sig\<close>, rendered in block \<open>bid\<close>.\<close>

definition searchCall :: "jsstr \<Rightarrow> call" where
  "searchCall bid = \<lparr>functionName = js ''search'', blockId = bid, callId = js ''c1'',
     contentSignature = Some (js ''sig'')\<rparr>"


definition ledgerHitPage :: world where
  "ledgerHitPage = emptyPage\<lparr>toggleState := Some (JBool True),
     executedFunctions := [js ''search:c1:sig''], buttons := [runButton 0 (js ''b1'')]\<rparr>"

definition legacyHitPage :: world where
  "legacyHitPage = emptyPage\<lparr>toggleState := Some (JBool True),
     prevExecLegacy := (\<lambda>_ _. True), buttons := [runButton 0 (js ''b1'')]\<rparr>"

text \<open>The page after the block \<open>b1\<close> has been scheduled and its button clicked directly.\<close>

definition firstBlockDone :: world where
  "firstBlockDone = emptyPage\<lparr>toggleState := Some (JBool True), executed := [js ''b1''],
        executedFunctions := [js ''search:c1:sig''], buttons := [runButton 0 (js ''b1'')],
        events := [Marked (js ''search:c1:sig''), BlockMarked (js ''b1''), BlockMarked (js ''b1''),
                   Marked (js ''search:c1:sig''), Click 0]\<rparr>"

text \<open>The page after the block \<open>b1\<close> has been scheduled while its button was disabled.\<close>

definition armedPage :: world where
  "armedPage = emptyPage\<lparr>toggleState := Some (JBool True), executed := [js ''b1''],
     executedFunctions := [js ''search:c1:sig''],
     buttons := [(runButton 0 (js ''b1''))\<lparr>disabled := True\<rparr>],
     events := [Marked (js ''search:c1:sig''), BlockMarked (js ''b1''), BlockMarked (js ''b1''),
                Marked (js ''search:c1:sig''), SetTimeout SetupAutoExecution 50]\<rparr>"

text \<open>The same page once the user has switched auto-execution off and the button is enabled.\<close>

definition flagTurnedOff :: world where
  "flagTurnedOff = armedPage\<lparr>toggleState := Some (JBool False), buttons := [runButton 0 (js ''b1'')]\<rparr>"

lemmas input_defs = emptyPage_def runButton_def searchCall_def js_def colon_def trim_def is_space_def
  activations_def

lemmas eval_defs = scheduleAutoExecution_def beginAutoExecution_def initToggleState_def
  autoExecuteEnabled_def DEFAULT_AUTO_EXECUTE_def MAX_AUTO_EXECUTE_ATTEMPTS_def sigTruthy_def
  sigOrEmpty_def sigText_def isBlockExecuted_def markFunctionExecuted_def functionKey_def
  markBlockExecuted_def getAttempts_def executeDirectly_def containerButton_def click_def
  setTimeout_def set_add_def retry_def setupAutoExecution_def findExecuteButton_def
  fallbackButton_def isFunctionExecuted_def legacyCheck_def scanClick_def scannerEnabled_def
  buttonEligible_def Let_def

section \<open>The retry loop: delays and ceiling\<close>

lemma retryDelay_pos: "1 \<le> n \<Longrightarrow> retryDelay n = min (150 * (3 / 2) ^ (n - 1)) 1000"
  by (cases n) (simp_all add: retryDelay_def power_int_def nat_diff_distrib)

lemma retryDelay_step: "1 \<le> n \<Longrightarrow> retryDelay (Suc n) = min (3 / 2 * retryDelay n) 1000"
  by (cases n) (simp_all add: retryDelay_pos)

lemma retryDelay_mono: "1 \<le> n \<Longrightarrow> retryDelay n \<le> retryDelay (Suc n)"
proof -
  assume n: "1 \<le> n"
  have "0 \<le> retryDelay n" using n by (simp add: retryDelay_pos)
  moreover have "retryDelay n \<le> 1000" using n by (simp add: retryDelay_pos)
  ultimately show ?thesis using n by (simp add: retryDelay_step min_def)
qed

lemma retryDelay_values:
  "retryDelay 1 = 150" "retryDelay 2 = 225" "retryDelay 3 = 675 / 2" "retryDelay 4 = 2025 / 4"
  "retryDelay 5 = 6075 / 8" "retryDelay 6 = 1000" "retryDelay 7 = 1000" "retryDelay 8 = 1000"
  by (simp_all add: retryDelay_def power_int_def power_divide)

lemma retryDelay_Suc_values:
  "retryDelay (Suc 0) = 150"
  "retryDelay (Suc (Suc 0)) = 225"
  "retryDelay (Suc (Suc (Suc 0))) = 675 / 2"
  "retryDelay (Suc (Suc (Suc (Suc 0)))) = 2025 / 4"
  "retryDelay (Suc (Suc (Suc (Suc (Suc 0))))) = 6075 / 8"
  "retryDelay (Suc (Suc (Suc (Suc (Suc (Suc 0)))))) = 1000"
  "retryDelay (Suc (Suc (Suc (Suc (Suc (Suc (Suc 0))))))) = 1000"
  "retryDelay (Suc (Suc (Suc (Suc (Suc (Suc (Suc (Suc 0)))))))) = 1000"
  using retryDelay_values by (simp_all add: eval_nat_numeral)

lemma retry_counter: "retry c n w = (out, n', w') \<Longrightarrow> n' = Suc n"
  by (auto simp: retry_def Let_def split: if_splits option.splits)

lemma retry_gives_up: "MAX_AUTO_EXECUTE_ATTEMPTS \<le> n \<Longrightarrow> retry c n w = (GaveUp, Suc n, w)"
  by (simp add: retry_def Let_def)

lemma retry_attempt_below:
  "retry c n w = (out, n', w') \<Longrightarrow> isAttempt out \<Longrightarrow> n < MAX_AUTO_EXECUTE_ATTEMPTS"
  by (auto simp: retry_def Let_def split: if_splits option.splits)

lemma retry_rescheduled:
  "retry c n w = (Rescheduled d, n', w') \<Longrightarrow>
     n' = Suc n \<and> n' \<le> MAX_AUTO_EXECUTE_ATTEMPTS \<and> d = retryDelay n' \<and>
     last (events w') = SetTimeout (Retry n') d"
  by (auto simp: retry_def Let_def setTimeout_def split: if_splits option.splits)

lemma retry_only_events: "\<exists>evs. snd (snd (retry c n w)) = w\<lparr>events := events w @ evs\<rparr>"
  by (auto simp: retry_def Let_def setTimeout_def click_def split: if_splits option.splits
      intro: exI[of _ "[]"])

lemma retryChain_Cons_resched:
  "retry c n w = (Rescheduled d, n', w') \<Longrightarrow>
     fst (retryChain c (e # es) n w) = Rescheduled d # fst (retryChain c es n' (e w'))"
  by (simp split: prod.splits)

lemma retryChain_attempts:
  "length (filter isAttempt (fst (retryChain c envs n w))) \<le> MAX_AUTO_EXECUTE_ATTEMPTS - n"
proof (induction envs arbitrary: n w)
  case Nil
  obtain out n' w' where r: "retry c n w = (out, n', w')" by (cases "retry c n w") auto
  then show ?case using retry_attempt_below[OF r] by auto
next
  case (Cons e es)
  obtain out n' w' where r: "retry c n w = (out, n', w')" by (cases "retry c n w") auto
  show ?case
  proof (cases out)
    case (Rescheduled d)
    have n': "n' = Suc n" using r by (rule retry_counter)
    have lt: "n < MAX_AUTO_EXECUTE_ATTEMPTS" using retry_attempt_below[OF r] Rescheduled by simp
    have "length (filter isAttempt (fst (retryChain c es n' (e w')))) \<le> MAX_AUTO_EXECUTE_ATTEMPTS - n'"
      by (rule Cons.IH)
    then show ?thesis
      using retryChain_Cons_resched[of c n w d n' w' e es] r Rescheduled n' lt by simp
  qed (use r retry_attempt_below[OF r] in auto)
qed

lemma retryChain_nonempty: "fst (retryChain c envs n w) \<noteq> []"
  by (cases envs) (auto split: prod.splits retry_outcome.splits)

lemma retryChain_stops:
  "MAX_AUTO_EXECUTE_ATTEMPTS \<le> length envs + n \<Longrightarrow>
     last (fst (retryChain c envs n w)) \<noteq> Rescheduled d"
proof (induction envs arbitrary: n w)
  case Nil
  then show ?case by (simp add: retry_gives_up)
next
  case (Cons e es)
  obtain out n' w' where r: "retry c n w = (out, n', w')" by (cases "retry c n w") auto
  show ?case
  proof (cases out)
    case (Rescheduled d')
    have n': "n' = Suc n" using r by (rule retry_counter)
    have "last (fst (retryChain c es n' (e w'))) \<noteq> Rescheduled d"
      using Cons.prems n' by (intro Cons.IH) simp
    then show ?thesis
      using retryChain_Cons_resched[of c n w d' n' w' e es] r Rescheduled
        retryChain_nonempty[of c es n' "e w'"]
      by simp
  qed (use r in auto)
qed

lemma retryChain_all_fail:
  "fst (retryChain (searchCall (js ''b1'')) [id, id, id, id, id, id, id, id] 0 emptyPage) =
     [Rescheduled 150, Rescheduled 225, Rescheduled (675 / 2), Rescheduled (2025 / 4),
      Rescheduled (6075 / 8), Rescheduled 1000, Rescheduled 1000, Rescheduled 1000, GaveUp]"
  by (simp add: eval_defs input_defs retryDelay_Suc_values)

text \<open>
  Claim C4. The retry loop makes at most eight attempts for a block. Whatever else happens
  on the page between the timer firings, at most \<open>MAX_AUTO_EXECUTE_ATTEMPTS = 8\<close>
  invocations of \<^verbatim>\<open>retry\<close> get as far as looking for the button. After eight
  of them the next invocation (the timer armed by the eighth failure still fires once, and
  the source logs it as attempt 9 of 8) only gives up: it looks for no button, clicks
  nothing, arms no timer and leaves the page as it is, so that a chain observed over eight
  gaps has always stopped. No invocation of \<^verbatim>\<open>retry\<close> changes anything but
  the record of clicks and timers: the rendered block and its button stay in place.
\<close>

theorem retry_ceiling:
  "length (filter isAttempt (fst (retryChain c envs 0 w))) \<le> 8 \<and>
   retry c 8 w = (GaveUp, 9, w) \<and>
   (8 \<le> length envs \<longrightarrow> (\<forall>d. last (fst (retryChain c envs 0 w)) \<noteq> Rescheduled d)) \<and>
   (\<exists>evs. snd (snd (retry c n w)) = w\<lparr>events := events w @ evs\<rparr>)"
proof -
  have "length (filter isAttempt (fst (retryChain c envs 0 w))) \<le> 8"
    using retryChain_attempts[of c envs 0 w] by (simp add: MAX_AUTO_EXECUTE_ATTEMPTS_def)
  moreover have "retry c 8 w = (GaveUp, 9, w)"
    using retry_gives_up[of 8 c w] by (simp add: MAX_AUTO_EXECUTE_ATTEMPTS_def)
  moreover have "8 \<le> length envs \<longrightarrow> (\<forall>d. last (fst (retryChain c envs 0 w)) \<noteq> Rescheduled d)"
    using retryChain_stops[of envs 0 c w] by (simp add: MAX_AUTO_EXECUTE_ATTEMPTS_def)
  ultimately show ?thesis
    using retry_only_events[of c n w] by simp
qed

theorem retry_ceiling_witness:
  "(8::nat) \<le> length [id, id, id, id, id, id, id, id :: world \<Rightarrow> world] \<and>
   fst (retryChain (searchCall (js ''b1'')) [id, id, id, id, id, id, id, id] 0 emptyPage) =
     [Rescheduled 150, Rescheduled 225, Rescheduled (675 / 2), Rescheduled (2025 / 4),
      Rescheduled (6075 / 8), Rescheduled 1000, Rescheduled 1000, Rescheduled 1000, GaveUp] \<and>
   length (filter isAttempt
     (fst (retryChain (searchCall (js ''b1'')) [id, id, id, id, id, id, id, id] 0 emptyPage))) = 8 \<and>
   (\<forall>d. last (fst (retryChain (searchCall (js ''b1'')) [id, id, id, id, id, id, id, id] 0 emptyPage))
      \<noteq> Rescheduled d) \<and>
   retry (searchCall (js ''b1'')) 8 emptyPage = (GaveUp, 9, emptyPage)"
proof -
  let ?r = "fst (retryChain (searchCall (js ''b1'')) [id, id, id, id, id, id, id, id] 0 emptyPage)"
  have e: "?r = [Rescheduled 150, Rescheduled 225, Rescheduled (675 / 2), Rescheduled (2025 / 4),
      Rescheduled (6075 / 8), Rescheduled 1000, Rescheduled 1000, Rescheduled 1000, GaveUp]"
    by (rule retryChain_all_fail)
  have t: "retry (searchCall (js ''b1'')) 8 emptyPage = (GaveUp, 9, emptyPage)"
    using retry_ceiling [of "searchCall (js ''b1'')" "[id, id, id, id, id, id, id, id]" emptyPage 8]
    by blast
  show ?thesis unfolding e using t by simp
qed

lemma third_retry_eval:
  "retry (searchCall (js ''b1'')) 2 emptyPage =
     (Rescheduled (retryDelay 3), 3, setTimeout (Retry 3) (retryDelay 3) emptyPage)"
  by (simp add: retry_def Let_def MAX_AUTO_EXECUTE_ATTEMPTS_def findExecuteButton_def
      containerButton_def fallbackButton_def emptyPage_def)

text \<open>
  Claim C5. When attempt \<open>n\<close> of the retry loop fails and the loop goes on, the timer it
  arms for the next invocation has the delay \<open>min (150 * 1.5 ^ (n - 1)) 1000\<close>
  milliseconds, with \<open>1 \<le> n \<le> 8\<close>: the first delay is 150, each delay is the one
  before times 1.5 capped at 1000, the delays never decrease, and each lies between 150 and
  1000.
\<close>

theorem retry_backoff_delay:
  assumes "retry c k w = (Rescheduled d, n, w')"
  shows "n = Suc k \<and> 1 \<le> n \<and> n \<le> MAX_AUTO_EXECUTE_ATTEMPTS \<and>
         d = min (150 * (3 / 2) ^ (n - 1)) 1000 \<and>
         last (events w') = SetTimeout (Retry n) d \<and>
         150 \<le> d \<and> d \<le> 1000 \<and>
         retryDelay 1 = 150 \<and>
         retryDelay (Suc n) = min (3 / 2 * d) 1000 \<and>
         d \<le> retryDelay (Suc n)"
proof -
  from retry_rescheduled[OF assms]
  have n: "n = Suc k" and le: "n \<le> MAX_AUTO_EXECUTE_ATTEMPTS" and d: "d = retryDelay n"
    and ev: "last (events w') = SetTimeout (Retry n) d" by auto
  have n1: "1 \<le> n" using n by simp
  have dv: "d = min (150 * (3 / 2) ^ (n - 1)) 1000" using d n1 by (simp add: retryDelay_pos)
  have "(1::rat) \<le> (3 / 2) ^ (n - 1)" by (rule one_le_power) simp
  then have lo: "150 \<le> d" using dv by simp
  have hi: "d \<le> 1000" using dv by simp
  have "retryDelay 1 = 150" by (simp add: retryDelay_pos)
  moreover have "retryDelay (Suc n) = min (3 / 2 * d) 1000" using retryDelay_step[OF n1] d by simp
  moreover have "d \<le> retryDelay (Suc n)" using retryDelay_mono[OF n1] d by simp
  ultimately show ?thesis using n n1 le dv ev lo hi by simp
qed

theorem retry_backoff_delay_witness:
  "retry (searchCall (js ''b1'')) 2 emptyPage =
     (Rescheduled (675 / 2), 3, setTimeout (Retry 3) (675 / 2) emptyPage) \<and>
   (675 / 2 :: rat) = min (150 * (3 / 2) ^ (3 - 1)) 1000 \<and>
   last (events (setTimeout (Retry 3) (675 / 2) emptyPage)) = SetTimeout (Retry 3) (675 / 2) \<and>
   retryDelay (Suc 3) = min (3 / 2 * (675 / 2)) 1000"
proof -
  have h: "retry (searchCall (js ''b1'')) 2 emptyPage =
     (Rescheduled (675 / 2), 3, setTimeout (Retry 3) (675 / 2) emptyPage)"
    using third_retry_eval unfolding retryDelay_values(3) .
  from retry_backoff_delay [OF h] have
    "675 / 2 = min (150 * (3 / 2) ^ (3 - 1)) (1000::rat)"
    "last (events (setTimeout (Retry 3) (675 / 2) emptyPage)) = SetTimeout (Retry 3) (675 / 2)"
    "retryDelay (Suc 3) = min (3 / 2 * (675 / 2)) 1000"
    by blast+
  with h show ?thesis by blast
qed

section \<open>The scheduler: marking, checks and the user's setting\<close>

lemma markFunctionExecuted_simps:
  "events (markFunctionExecuted a s f w) = events w @ [Marked (functionKey a s f)]"
  "functionKey a s f \<in> set (executedFunctions (markFunctionExecuted a s f w))"
  "set (executedFunctions w) \<subseteq> set (executedFunctions (markFunctionExecuted a s f w))"
  "toggleState (markFunctionExecuted a s f w) = toggleState w"
  "buttons (markFunctionExecuted a s f w) = buttons w"
  by (auto simp: markFunctionExecuted_def set_add_def Let_def)

lemma markBlockExecuted_simps:
  "events (markBlockExecuted b w) = events w @ [BlockMarked b]"
  "executedFunctions (markBlockExecuted b w) = executedFunctions w"
  "toggleState (markBlockExecuted b w) = toggleState w"
  "buttons (markBlockExecuted b w) = buttons w"
  by (auto simp: markBlockExecuted_def)

lemma executeDirectly_frame:
  "\<exists>evs. snd (executeDirectly c w) = w\<lparr>events := events w @ evs\<rparr>"
  by (auto simp: executeDirectly_def click_def split: option.splits intro: exI[of _ "[]"])

lemma setTimeout_simps:
  "events (setTimeout t d w) = events w @ [SetTimeout t d]"
  "executedFunctions (setTimeout t d w) = executedFunctions w"
  "toggleState (setTimeout t d w) = toggleState w"
  by (auto simp: setTimeout_def)


lemma beginAutoExecution_marks:
  assumes "beginAutoExecution c w = (r, w')"
  shows "\<exists>rest. events w' = events w @
           Marked (functionKey (callId c) (sigText (contentSignature c)) (Some (functionName c))) # rest"
    and "functionKey (callId c) (sigText (contentSignature c)) (Some (functionName c))
           \<in> set (executedFunctions w')"
    and "toggleState w' = toggleState w"
proof -
  let ?k = "functionKey (callId c) (sigText (contentSignature c)) (Some (functionName c))"
  define w1 where
    "w1 = markFunctionExecuted (callId c) (sigText (contentSignature c)) (Some (functionName c)) w"
  define w3 where "w3 = markBlockExecuted (blockId c) (markBlockExecuted (blockId c) w1)"
  define w4 where "w4 = (if sigTruthy (contentSignature c)
                then markFunctionExecuted (callId c) (sigText (contentSignature c))
                       (Some (functionName c)) w3
                else w3)"
  obtain evs where ed: "snd (executeDirectly c w4) = w4\<lparr>events := events w4 @ evs\<rparr>"
    using executeDirectly_frame by blast
  have e4: "\<exists>rest. events w4 = events w @ Marked ?k # rest"
    by (simp add: w4_def w3_def w1_def markFunctionExecuted_simps markBlockExecuted_simps)
  have k4: "?k \<in> set (executedFunctions w4)"
    by (simp add: w4_def w3_def w1_def markFunctionExecuted_simps markBlockExecuted_simps)
  have t4: "toggleState w4 = toggleState w"
    by (simp add: w4_def w3_def w1_def markFunctionExecuted_simps markBlockExecuted_simps)
  have w': "w' = snd (executeDirectly c w4) \<or>
            w' = setTimeout SetupAutoExecution 50 (snd (executeDirectly c w4))"
    using assms
    by (auto simp: beginAutoExecution_def Let_def w4_def w3_def w1_def split: prod.splits if_splits)
  from e4 obtain rest where r: "events w4 = events w @ Marked ?k # rest" by blast
  show "\<exists>rest. events w' = events w @ Marked ?k # rest"
    using w' ed r by (auto simp: setTimeout_simps)
  show "?k \<in> set (executedFunctions w')"
    using w' ed k4 by (auto simp: setTimeout_simps)
  show "toggleState w' = toggleState w"
    using w' ed t4 by (auto simp: setTimeout_simps)
qed


lemma isFunctionExecuted_key:
  "functionKey a s (Some f) \<in> set (executedFunctions w) \<Longrightarrow> isFunctionExecuted w a s (Some f)"
  by (auto simp: isFunctionExecuted_def legacyCheck_def functionKey_def Let_def split: if_splits)


lemma scheduleAutoExecution_cases:
  "scheduleAutoExecution c w = (AlreadyExecuted, initToggleState w) \<or>
   scheduleAutoExecution c w = (AutoExecuteDisabled, initToggleState w) \<or>
   scheduleAutoExecution c w = (AlreadyProcessing, initToggleState w) \<or>
   scheduleAutoExecution c w = beginAutoExecution c (initToggleState w)"
  by (simp add: scheduleAutoExecution_def Let_def)






lemma firstBlock_eval:
  "scheduleAutoExecution (searchCall (js ''b1''))
     (emptyPage\<lparr>buttons := [runButton 0 (js ''b1'')]\<rparr>) = (ExecutedDirectly, firstBlockDone)"
  by (simp add: eval_defs input_defs firstBlockDone_def)

lemma secondBlock_eval:
  "scheduleAutoExecution (searchCall (js ''b2''))
     (firstBlockDone\<lparr>buttons := buttons firstBlockDone @ [runButton 1 (js ''b2'')]\<rparr>) =
   (ExecutedDirectly,
    firstBlockDone\<lparr>executed := [js ''b1'', js ''b2''],
      buttons := [runButton 0 (js ''b1''), runButton 1 (js ''b2'')],
      events := [Marked (js ''search:c1:sig''), BlockMarked (js ''b1''), BlockMarked (js ''b1''),
                 Marked (js ''search:c1:sig''), Click 0,
                 Marked (js ''search:c1:sig''), BlockMarked (js ''b2''), BlockMarked (js ''b2''),
                 Marked (js ''search:c1:sig''), Click 1]\<rparr>)"
  by (simp add: eval_defs input_defs firstBlockDone_def)

lemma armed_eval:
  "scheduleAutoExecution (searchCall (js ''b1''))
     (emptyPage\<lparr>toggleState := Some (JBool True),
        buttons := [(runButton 0 (js ''b1''))\<lparr>disabled := True\<rparr>]\<rparr>) = (RetryArmed, armedPage)"
  by (simp add: eval_defs input_defs armedPage_def)

lemma flagOff_retry_eval:
  "setupAutoExecution (searchCall (js ''b1'')) flagTurnedOff =
     (Clicked, 1, flagTurnedOff\<lparr>events := events flagTurnedOff @ [Click 0]\<rparr>)"
  by (simp add: eval_defs input_defs armedPage_def flagTurnedOff_def)

lemma flagOff_scan_eval: "scanClick 0 flagTurnedOff = flagTurnedOff"
  by (simp add: eval_defs input_defs armedPage_def flagTurnedOff_def)

lemma ledgerHit_eval:
  "scheduleAutoExecution (searchCall (js ''b1'')) ledgerHitPage =
     (ExecutedDirectly,
      ledgerHitPage\<lparr>executed := [js ''b1''],
        events := [Marked (js ''search:c1:sig''), BlockMarked (js ''b1''), BlockMarked (js ''b1''),
                   Marked (js ''search:c1:sig''), Click 0]\<rparr>)"
  by (simp add: eval_defs input_defs ledgerHitPage_def)

lemma legacyHit_eval:
  "scheduleAutoExecution (searchCall (js ''b1'')) legacyHitPage =
     (ExecutedDirectly,
      legacyHitPage\<lparr>executed := [js ''b1''], executedFunctions := [js ''search:c1:sig''],
        events := [Marked (js ''search:c1:sig''), BlockMarked (js ''b1''), BlockMarked (js ''b1''),
                   Marked (js ''search:c1:sig''), Click 0]\<rparr>)"
  by (simp add: eval_defs input_defs legacyHitPage_def)

lemma ledger_reports:
  "isFunctionExecuted ledgerHitPage (js ''c1'') (js ''sig'') (Some (js ''search''))"
  "isFunctionExecuted legacyHitPage (js ''c1'') (js ''sig'') (Some (js ''search''))"
  by (simp_all add: isFunctionExecuted_def legacyCheck_def Let_def ledgerHitPage_def
      legacyHitPage_def input_defs)

text \<open>
  Claim C3. When the scheduler has passed its checks and goes on to execute (it ends by
  clicking the button directly, or by arming the retry timer), the first thing it does is
  mark the call: the mark is the first effect it adds to the record, so every click and
  every timer of this run comes after it, and the key is in the tracker's in-process set
  (the tracker's own query answers yes even with empty storage). A later invocation of
  \<^verbatim>\<open>retry\<close> leaves that set as it is, so a retried click also finds the mark
  in place.
\<close>

theorem mark_before_attempt:
  assumes "scheduleAutoExecution c w0 = (r, w')"
    and "r = ExecutedDirectly \<or> r = RetryArmed"
  shows "(\<exists>key rest.
           events w' = events w0 @ Marked key # rest \<and>
           key \<in> set (executedFunctions w') \<and>
           isFunctionExecuted (w'\<lparr>prevExec := (\<lambda>_ _ _. False), prevExecLegacy := (\<lambda>_ _. False)\<rparr>)
             (callId c) (sigText (contentSignature c)) (Some (functionName c))) \<and>
         executedFunctions (snd (snd (retry c n w1))) = executedFunctions w1"
proof -
  let ?k = "functionKey (callId c) (sigText (contentSignature c)) (Some (functionName c))"
  have b: "beginAutoExecution c (initToggleState w0) = (r, w')"
    using assms scheduleAutoExecution_cases[of c w0] by auto
  have ev0: "events (initToggleState w0) = events w0" by (simp add: initToggleState_def Let_def)
  from beginAutoExecution_marks(1)[OF b] obtain rest where
    "events w' = events w0 @ Marked ?k # rest" using ev0 by auto
  moreover have k: "?k \<in> set (executedFunctions w')" by (rule beginAutoExecution_marks(2)[OF b])
  moreover have "isFunctionExecuted (w'\<lparr>prevExec := (\<lambda>_ _ _. False), prevExecLegacy := (\<lambda>_ _. False)\<rparr>)
             (callId c) (sigText (contentSignature c)) (Some (functionName c))"
    using k by (intro isFunctionExecuted_key) simp
  moreover have "executedFunctions (snd (snd (retry c n w1))) = executedFunctions w1"
    using retry_only_events[of c n w1] by auto
  ultimately show ?thesis by blast
qed

theorem mark_before_attempt_witness:
  "scheduleAutoExecution (searchCall (js ''b1''))
     (emptyPage\<lparr>buttons := [runButton 0 (js ''b1'')]\<rparr>) = (ExecutedDirectly, firstBlockDone) \<and>
   (\<exists>key rest.
      events firstBlockDone = events (emptyPage\<lparr>buttons := [runButton 0 (js ''b1'')]\<rparr>) @ Marked key # rest \<and>
      key \<in> set (executedFunctions firstBlockDone)) \<and>
   events firstBlockDone =
     [Marked (js ''search:c1:sig''), BlockMarked (js ''b1''), BlockMarked (js ''b1''),
      Marked (js ''search:c1:sig''), Click 0]"
proof -
  have e: "events firstBlockDone =
     [Marked (js ''search:c1:sig''), BlockMarked (js ''b1''), BlockMarked (js ''b1''),
      Marked (js ''search:c1:sig''), Click 0]"
    by (simp add: firstBlockDone_def emptyPage_def)
  from mark_before_attempt [OF firstBlock_eval, where n = 0 and ?w1.0 = emptyPage] firstBlock_eval e
  show ?thesis by blast
qed

text \<open>
  Where the storage holds the execution under the name-qualified key and a non-empty
  signature is at hand, the scheduler stops after the setting has received its default: it
  marks nothing, clicks nothing and arms no timer.
\<close>

lemma storage_hit_stops:
  assumes "sigTruthy (contentSignature c)"
    and "prevExec w (functionName c) (callId c) (sigOrEmpty (contentSignature c))"
  shows "scheduleAutoExecution c w = (AlreadyExecuted, initToggleState w)"
  using assms by (simp add: scheduleAutoExecution_def initToggleState_def Let_def)

text \<open>
  Claim C2 at a failing input. The execute button of the complete call \<open>search\<close>
  (\<open>c1\<close>, \<open>sig\<close>) has just been added in block \<open>b1\<close>, auto-execution is on, and
  the tracker's in-process set already holds the key \<open>search:c1:sig\<close>, while the
  storage holds nothing: the tracker's own query \<^verbatim>\<open>isFunctionExecuted\<close>
  reports the call executed. The scheduler does not stop. It asks the storage alone
  (line 683), marks the call again and clicks button 0. The same happens when the tracker
  reports the call through the legacy storage lookup.
\<close>

theorem ledger_hit_still_activates:
  "isFunctionExecuted ledgerHitPage (js ''c1'') (js ''sig'') (Some (js ''search'')) \<and>
   events ledgerHitPage = [] \<and>
   events (snd (scheduleAutoExecution (searchCall (js ''b1'')) ledgerHitPage)) =
     [Marked (js ''search:c1:sig''), BlockMarked (js ''b1''), BlockMarked (js ''b1''),
      Marked (js ''search:c1:sig''), Click 0] \<and>
   activations (snd (scheduleAutoExecution (searchCall (js ''b1'')) ledgerHitPage)) = [0] \<and>
   isFunctionExecuted legacyHitPage (js ''c1'') (js ''sig'') (Some (js ''search'')) \<and>
   events legacyHitPage = [] \<and>
   events (snd (scheduleAutoExecution (searchCall (js ''b1'')) legacyHitPage)) =
     [Marked (js ''search:c1:sig''), BlockMarked (js ''b1''), BlockMarked (js ''b1''),
      Marked (js ''search:c1:sig''), Click 0] \<and>
   activations (snd (scheduleAutoExecution (searchCall (js ''b1'')) legacyHitPage)) = [0]"
  unfolding ledgerHit_eval legacyHit_eval using ledger_reports
  by (simp add: activations_def ledgerHitPage_def legacyHitPage_def emptyPage_def)

text \<open>
  Claim C1 at a failing input. The same call (\<open>search\<close>, \<open>c1\<close>, \<open>sig\<close>) is rendered
  in two blocks \<open>b1\<close> and \<open>b2\<close>, one after the other, while the storage holds no
  execution yet. The first run marks the key and clicks button 0. The second run finds the
  key in the in-process set only if it asks the tracker, which it does not: it clicks
  button 1. The call is activated twice; the set holds the key once.
\<close>

theorem same_call_two_blocks_both_activated:
  "(let w1 = snd (scheduleAutoExecution (searchCall (js ''b1''))
                 (emptyPage\<lparr>buttons := [runButton 0 (js ''b1'')]\<rparr>));
        w2 = snd (scheduleAutoExecution (searchCall (js ''b2''))
                 (w1\<lparr>buttons := buttons w1 @ [runButton 1 (js ''b2'')]\<rparr>))
    in activations w1 = [0] \<and> activations w2 = [0, 1] \<and>
       executedFunctions w1 = [js ''search:c1:sig''] \<and>
       executedFunctions w2 = [js ''search:c1:sig''] \<and>
       isFunctionExecuted w1 (js ''c1'') (js ''sig'') (Some (js ''search'')))"
  unfolding Let_def firstBlock_eval snd_conv secondBlock_eval
  by (simp add: activations_def firstBlockDone_def emptyPage_def isFunctionExecuted_def js_def colon_def)

text \<open>
  Claim C9 at a failing input. The block \<open>b1\<close> is scheduled while auto-execution is on
  and its button is disabled, so the retry timer is armed. Then the user switches
  auto-execution off and the button becomes enabled. When the timer fires, the retry loop
  clicks the button although the setting is off: it never reads the setting. The periodic
  scanner, which reads the setting again when its timer fires, clicks nothing on the same
  page.
\<close>

theorem retry_clicks_with_flag_off:
  "(let w1 = snd (scheduleAutoExecution (searchCall (js ''b1''))
                 (emptyPage\<lparr>toggleState := Some (JBool True),
                    buttons := [(runButton 0 (js ''b1''))\<lparr>disabled := True\<rparr>]\<rparr>));
        w2 = w1\<lparr>toggleState := Some (JBool False), buttons := [runButton 0 (js ''b1'')]\<rparr>
    in activations w2 = [] \<and> \<not> autoExecuteEnabled w2 \<and>
       fst (setupAutoExecution (searchCall (js ''b1'')) w2) = Clicked \<and>
       activations (snd (snd (setupAutoExecution (searchCall (js ''b1'')) w2))) = [0] \<and>
       activations (scanClick 0 w2) = [])"
  unfolding Let_def armed_eval snd_conv flagTurnedOff_def[symmetric] flagOff_retry_eval flagOff_scan_eval
  by (simp add: activations_def flagTurnedOff_def armedPage_def autoExecuteEnabled_def)




section \<open>The parameter loop: what it hands over\<close>

lemmas str_defs = js_def endTag_def paramOpen_def nameEq_def cdataOpen_def cdataClose_def
  indexOf_def substring_def substringFrom_def cdataCapture_def paramValueText_def
  trim_def is_space_def Let_def

lemma queryParam_wf: "wfParam (queryParam (js ''hel''))" "wfParam (queryParam (js ''hel lo''))"
  by (simp_all add: wfParam_def noOpen_def queryParam_def invokeHead_def str_defs)

lemma invokeTail_noOpen: "noOpen invokeTail"
  by (simp add: noOpen_def invokeTail_def str_defs)

lemma query_values:
  "paramValueText (js ''hel'') = js ''hel''" "paramValueText (js ''hel lo'') = js ''hel lo''"
  by (simp_all add: str_defs)

lemma paramMatches_stream:
  assumes "list_all wfParam ps"
    and "case streaming of None \<Rightarrow> noOpen post | Some t \<Rightarrow> wfParam t"
  shows "paramMatches (streamText ps streaming post) 0 =
           map (\<lambda>p. (srcName p, paramValueText (srcValue p), False)) ps @
           (case streaming of
              None \<Rightarrow> []
            | Some t \<Rightarrow> [(srcName t, paramValueText (srcValue t), True)])"
  using assms(1)
proof (induction ps)
  case Nil
  show ?case
  proof (cases streaming)
    case None
    then show ?thesis using assms(2) paramMatches_no_open[of post]
      by (simp add: streamText_def)
  next
    case (Some t)
    then show ?thesis using assms(2) paramMatches_open[of t]
      by (simp add: streamText_def)
  qed
next
  case (Cons p ps)
  then have p: "wfParam p" and ps: "list_all wfParam ps" by simp_all
  have "streamText (p # ps) streaming post = closedText p @ streamText ps streaming post"
    by (simp add: streamText_def)
  then show ?case using paramMatches_closed[OF p] Cons.IH[OF ps]
    by simp
qed

text \<open>
  The scenario of the specification: on the first scan the parameter \<open>q\<close> is matched with
  the text \<open>hel\<close> and the streaming flag, on the final scan with \<open>hel lo\<close> and without
  the flag.
\<close>

lemma query_stream_matches:
  "paramMatches (invokeHead @ js ''<parameter name='' @ [34] @ js ''q'' @ [34, 62] @ js ''hel'') 0 =
     [(js ''q'', js ''hel'', True)]"
  "paramMatches (invokeHead @ js ''<parameter name='' @ [34] @ js ''q'' @ [34, 62] @ js ''hel lo'' @
       js ''</parameter>'' @ invokeTail) 0 =
     [(js ''q'', js ''hel lo'', False)]"
proof -
  have w1: "list_all wfParam []" by simp
  have s1: "case Some (queryParam (js ''hel'')) of None \<Rightarrow> noOpen [] | Some t \<Rightarrow> wfParam t"
    using queryParam_wf(1) by simp
  have w2: "list_all wfParam [queryParam (js ''hel lo'')]" using queryParam_wf(2) by simp
  have s2: "case None of None \<Rightarrow> noOpen invokeTail | Some t \<Rightarrow> wfParam t"
    using invokeTail_noOpen by simp
  have t1: "streamText [] (Some (queryParam (js ''hel''))) [] =
      invokeHead @ js ''<parameter name='' @ [34] @ js ''q'' @ [34, 62] @ js ''hel''"
    by (simp add: streamText_def openText_def openTagOf_def queryParam_def paramOpen_def nameEq_def js_def)
  have t2: "streamText [queryParam (js ''hel lo'')] None invokeTail =
      invokeHead @ js ''<parameter name='' @ [34] @ js ''q'' @ [34, 62] @ js ''hel lo'' @
       js ''</parameter>'' @ invokeTail"
    by (simp add: streamText_def closedText_def openTagOf_def queryParam_def paramOpen_def nameEq_def
        endTag_def js_def)
  from paramMatches_stream [OF w1 s1]
  show "paramMatches (invokeHead @ js ''<parameter name='' @ [34] @ js ''q'' @ [34, 62] @ js ''hel'') 0 =
     [(js ''q'', js ''hel'', True)]"
    unfolding t1 by (simp add: queryParam_def query_values)
  from paramMatches_stream [OF w2 s2]
  show "paramMatches (invokeHead @ js ''<parameter name='' @ [34] @ js ''q'' @ [34, 62] @ js ''hel lo'' @
       js ''</parameter>'' @ invokeTail) 0 =
     [(js ''q'', js ''hel lo'', False)]"
    unfolding t2 by (simp add: queryParam_def query_values)
qed

text \<open>
  The value of a closed parameter ends at the first \<^verbatim>\<open></parameter>\<close> after the
  opening tag (line 567), also when that text lies inside a CDATA section: of the value
  \<^verbatim>\<open><![CDATA[a</parameter>b]]>\<close> the loop hands over \<open>a\<close>.
\<close>

lemma cdata_value_ends_at_first_end_tag:
  "paramMatches (invokeHead @ js ''<parameter name='' @ [34] @ js ''q'' @ [34, 62] @
       js ''<![CDATA[a</parameter>b]]></parameter>'' @ invokeTail) 0 =
     [(js ''q'', js ''a'', False)]"
proof -
  have w: "wfParam (queryParam (js ''<![CDATA[a''))"
    by (simp add: wfParam_def noOpen_def queryParam_def invokeHead_def str_defs)
  have n: "noOpen (js ''b]]></parameter>'' @ invokeTail)"
    by (simp add: noOpen_def invokeTail_def str_defs)
  have t: "closedText (queryParam (js ''<![CDATA[a'')) @ (js ''b]]></parameter>'' @ invokeTail) =
      invokeHead @ js ''<parameter name='' @ [34] @ js ''q'' @ [34, 62] @
       js ''<![CDATA[a</parameter>b]]></parameter>'' @ invokeTail"
    by (simp add: closedText_def openTagOf_def queryParam_def paramOpen_def nameEq_def endTag_def js_def)
  have v: "paramValueText (js ''<![CDATA[a'') = js ''a''"
    by (simp add: str_defs suffix_def)
  from paramMatches_closed[OF w, of "js ''b]]></parameter>'' @ invokeTail"]
  show ?thesis unfolding t using paramMatches_no_open[OF n] by (simp add: queryParam_def v)
qed

subsection \<open>The loop and the calls it makes\<close>

lemma parameterLoop_matches:
  "parameterLoop raw i b new d = renderParams b new (paramMatches raw i) d"
proof (induction raw i b new d rule: parameterLoop.induct)
  case (1 rawContent lastIndex blkId isNewRender d)
  show ?case
  proof (cases "execParamStart rawContent lastIndex")
    case None
    then show ?thesis
      by (simp add: parameterLoop.simps[of rawContent lastIndex] paramMatches.simps[of rawContent lastIndex])
  next
    case (Some m)
    obtain index paramName matchLength where m: "m = (index, paramName, matchLength)"
      by (cases m)
    define startIndex where "startIndex = index + matchLength"
    define endTagIndex where "endTagIndex = indexOf rawContent endTag startIndex"
    define extractedValue where "extractedValue =
      (case endTagIndex of
         Some e \<Rightarrow> substring rawContent startIndex e
       | None \<Rightarrow> substringFrom rawContent startIndex)"
    let ?call = "createOrUpdateParamElement paramName (paramValueText extractedValue) blkId
                   isNewRender (endTagIndex = None) d"
    have l: "parameterLoop rawContent lastIndex blkId isNewRender d =
        (case ?call of
           Inl err \<Rightarrow> Inl err
         | Inr d' \<Rightarrow> parameterLoop rawContent startIndex blkId isNewRender d')"
      unfolding parameterLoop.simps[of rawContent lastIndex] Some m startIndex_def endTagIndex_def
        extractedValue_def by (simp add: Let_def)
    have r: "paramMatches rawContent lastIndex =
        (paramName, paramValueText extractedValue, endTagIndex = None) # paramMatches rawContent startIndex"
      unfolding paramMatches.simps[of rawContent lastIndex] Some m startIndex_def endTagIndex_def
        extractedValue_def by (simp add: Let_def)
    show ?thesis
    proof (cases ?call)
      case (Inl err)
      then show ?thesis unfolding l r by simp
    next
      case (Inr d')
      have "parameterLoop rawContent startIndex blkId isNewRender d' =
            renderParams blkId isNewRender (paramMatches rawContent startIndex) d'"
        using "1.IH"[OF Some m[symmetric] refl startIndex_def endTagIndex_def refl extractedValue_def Inr]
        by simp
      then show ?thesis unfolding l r using Inr by simp
    qed
  qed
qed

lemma lineBreakText_matches:
  "paramMatches lineBreakText 0 = [(lineBreakName, js ''1'', False)]"
proof -
  have w: "list_all wfParam [lineBreakParam]"
    by (simp add: wfParam_def noOpen_def lineBreakParam_def lineBreakName_def invokeHead_def str_defs)
  have n: "case None of None \<Rightarrow> noOpen invokeTail | Some t \<Rightarrow> wfParam t"
    by (simp add: noOpen_def invokeTail_def str_defs)
  have t: "streamText [lineBreakParam] None invokeTail = lineBreakText"
    by (simp add: streamText_def closedText_def openTagOf_def lineBreakParam_def lineBreakText_def
        paramOpen_def nameEq_def endTag_def js_def)
  from paramMatches_stream[OF w n] show ?thesis unfolding t
    by (simp add: lineBreakParam_def str_defs)
qed

lemma lineBreak_selector:
  "paramSelectorValue (js ''b1'' @ 45 # lineBreakName) = DoesNotParse"
  by (simp add: paramSelectorValue_def lineBreakName_def js_def cssString.simps)

text \<open>
  Claim C6 at a failing input. The call is complete and its one parameter is closed:
  \<^verbatim>\<open><parameter name="a\<close>, line feed, \<^verbatim>\<open>b">1</parameter>\<close>. The
  regular expression matches the opening tag (\<^verbatim>\<open>[^"]+\<close> takes the line feed),
  the closing tag is found and the value is \<open>1\<close>. The loop hands the parameter to
  \<^verbatim>\<open>createOrUpdateParamElement\<close>, whose first lookup pastes the name into
  the selector \<^verbatim>\<open>.param-name[data-param-id="b1-a\<close>, line feed,
  \<^verbatim>\<open>b"]\<close>. A line break inside a string of a selector makes it a bad string:
  \<^verbatim>\<open>querySelector\<close> raises a \<^verbatim>\<open>SyntaxError\<close>, which leaves the
  loop and \<^verbatim>\<open>renderFunctionCall\<close>. The pass throws, on the first rendering and
  on every later one, and hands over no value.
\<close>

theorem line_break_name_raises:
  "paramMatches lineBreakText 0 = [(lineBreakName, js ''1'', False)] \<and>
   parameterPass (js ''b1'') True lineBreakText emptyDom = Inl SyntaxError \<and>
   parameterPass (js ''b1'') False lineBreakText emptyDom = Inl SyntaxError"
  unfolding parameterPass_def parameterLoop_matches lineBreakText_matches
  by (simp add: createOrUpdateParamElement_def lineBreak_selector Let_def)

subsection \<open>Values: CDATA and trimming\<close>

lemma find_sub_prefix: "p \<noteq> [] \<Longrightarrow> find_sub p (p @ x) = Some 0"
proof -
  assume "p \<noteq> []"
  then obtain c cs where e: "p @ x = c # cs" by (cases "p @ x") auto
  have "prefix p (c # cs)" using e by (metis prefixI)
  then show ?thesis using e by simp
qed

lemma cdataCapture_complete: "cdataCapture (cdataOpen @ inner @ cdataClose) = Some inner"
proof -
  have "find_sub cdataOpen (cdataOpen @ inner @ cdataClose) = Some 0"
    by (rule find_sub_prefix) (simp add: cdataOpen_def js_def)
  then show ?thesis by (simp add: cdataCapture_def Let_def suffix_def)
qed

lemma cdataCapture_unterminated:
  "\<not> suffix cdataClose inner \<Longrightarrow> cdataCapture (cdataOpen @ inner) = Some inner"
proof -
  assume n: "\<not> suffix cdataClose inner"
  have "find_sub cdataOpen (cdataOpen @ inner) = Some 0"
    by (rule find_sub_prefix) (simp add: cdataOpen_def js_def)
  then show ?thesis using n by (simp add: cdataCapture_def Let_def)
qed

lemma trim_decomposition:
  "\<exists>a b. v = a @ trim v @ b \<and> list_all is_space a \<and> list_all is_space b"
proof -
  let ?u = "dropWhile is_space v"
  let ?a = "takeWhile is_space v"
  let ?b = "rev (takeWhile is_space (rev ?u))"
  have "rev ?u = takeWhile is_space (rev ?u) @ dropWhile is_space (rev ?u)" by simp
  then have "?u = rev (dropWhile is_space (rev ?u)) @ ?b" by (metis rev_append rev_rev_ident)
  then have u: "?u = trim v @ ?b" by (simp add: trim_def)
  have "v = ?a @ ?u" by simp
  then have "v = ?a @ trim v @ ?b" using u by simp
  moreover have "list_all is_space ?a" by (simp add: list_all_iff) (meson set_takeWhileD)
  moreover have "list_all is_space ?b" by (simp add: list_all_iff) (meson set_takeWhileD)
  ultimately show ?thesis by blast
qed

lemma trim_ends:
  assumes "trim v \<noteq> []"
  shows "\<not> is_space (hd (trim v)) \<and> \<not> is_space (last (trim v))"
proof -
  let ?u = "dropWhile is_space v"
  have r: "dropWhile is_space (rev ?u) \<noteq> []" using assms by (simp add: trim_def)
  have "last (trim v) = hd (dropWhile is_space (rev ?u))"
    using r by (simp add: trim_def last_rev)
  then have l: "\<not> is_space (last (trim v))" using hd_dropWhile[OF r] by simp
  have une: "?u \<noteq> []" using r by (metis dropWhile.simps(1) rev.simps(1))
  have "rev ?u = takeWhile is_space (rev ?u) @ dropWhile is_space (rev ?u)" by simp
  then have "?u = trim v @ rev (takeWhile is_space (rev ?u))"
    by (metis rev_append rev_rev_ident trim_def)
  then have "hd ?u = hd (trim v)" using assms by (metis hd_append2)
  then show ?thesis using l hd_dropWhile[OF une] by simp
qed

lemma paramValueText_plain:
  "find_sub cdataOpen v = None \<Longrightarrow> paramValueText v = trim v"
  by (simp add: paramValueText_def cdataCapture_def)

text \<open>
  Claim C7 at failing inputs. A value that is wrapped in CDATA and complete comes back as
  its inner text (\<open>cdataCapture_complete\<close>), and a value without CDATA comes back
  trimmed (\<open>paramValueText_plain\<close>, \<open>trim_ends\<close>). But the terminator is dropped
  only when all of \<^verbatim>\<open>]]>\<close> ends the value: a partial terminator
  \<^verbatim>\<open>]]\<close>, as a stream cut after two of its three characters leaves it,
  stays in the returned text, and so does a complete terminator that is followed by white
  space.
\<close>

theorem cdata_partial_terminator_kept:
  "paramValueText (js ''<![CDATA[abc]]'') = js ''abc]]'' \<and>
   paramValueText (js ''<![CDATA[abc]'') = js ''abc]'' \<and>
   paramValueText (js ''<![CDATA[abc]]> '') = js ''abc]]> '' \<and>
   paramValueText (js ''<![CDATA[abc]]>'') = js ''abc''"
  by (simp add: str_defs suffix_def)

section \<open>Rendering the same text twice\<close>

lemma backslashText_params:
  "paramMatches backslashText 0 = [(backslashName, js ''1'', False)]"
proof -
  have w: "list_all wfParam [backslashParam]"
    by (simp add: wfParam_def noOpen_def backslashParam_def backslashName_def invokeHead_def str_defs)
  have n: "case None of None \<Rightarrow> noOpen invokeTail | Some t \<Rightarrow> wfParam t"
    by (simp add: noOpen_def invokeTail_def str_defs)
  have t: "streamText [backslashParam] None invokeTail = backslashText"
    by (simp add: streamText_def closedText_def openTagOf_def backslashParam_def backslashText_def
        paramOpen_def nameEq_def endTag_def js_def)
  from paramMatches_stream[OF w n] show ?thesis unfolding t
    by (simp add: backslashParam_def str_defs)
qed

lemma backslash_selector:
  "paramSelectorValue (js ''b1'' @ 45 # backslashName) = AsksFor (js ''b1-dirname'')"
  by (simp add: paramSelectorValue_def backslashName_def js_def cssString.simps isHexDigit_def)

lemmas dom_defs = createOrUpdateParamElement_def lookupParamNode_def selects_def appendChild_def
  updateNode_def getNode_def setValueDisplay_def newParamName_def newParamValue_def
  countNodes_def emptyDom_def Let_def

lemma backslash_mismatch: "js ''b1'' @ 45 # backslashName \<noteq> js ''b1-dirname''"
  by (simp add: backslashName_def js_def)

lemma first_pass: "parameterPass (js ''b1'') True backslashText emptyDom = Inr onceRendered"
  unfolding parameterPass_def parameterLoop_matches backslashText_params
  by (simp add: dom_defs backslash_selector backslash_mismatch onceRendered_def)

lemma second_pass:
  "parameterPass (js ''b1'') False backslashText onceRendered =
     Inr (onceRendered\<lparr>containerNodes := containerNodes onceRendered @
       [newParamName (js ''b1'' @ [45] @ backslashName) backslashName,
        (newParamValue (js ''b1'' @ [45] @ backslashName) backslashName)
          \<lparr>nodeText := js ''1'', dataParamValue := Some (js ''1'')\<rparr>]\<rparr>)"
  unfolding parameterPass_def parameterLoop_matches backslashText_params
  by (simp add: dom_defs backslash_selector backslash_mismatch onceRendered_def)

lemma firstIndex_None_iff: "firstIndex P xs = None \<longleftrightarrow> (\<forall>x\<in>set xs. \<not> P x)"
  by (induction xs) auto

lemma firstIndex_keys:
  "firstIndex (selects k v) xs \<noteq> None \<longleftrightarrow> (k, v) \<in> set (map nodeKey xs)"
  by (auto simp: firstIndex_None_iff selects_def nodeKey_def)

lemma lookup_present: "lookupParamNode k v d \<noteq> None \<longleftrightarrow> present k v d"
proof (cases "firstIndex (selects k v) (containerNodes d)")
  case None
  then have "(k, v) \<notin> set (containerKeys d)"
    using firstIndex_keys[of k v "containerNodes d"] by (simp add: containerKeys_def)
  then show ?thesis
    using None firstIndex_keys[of k v "documentNodes d"]
    by (simp add: lookupParamNode_def present_def documentKeys_def)
next
  case (Some i)
  then have "(k, v) \<in> set (containerKeys d)"
    using firstIndex_keys[of k v "containerNodes d"] by (simp add: containerKeys_def)
  then show ?thesis using Some by (simp add: lookupParamNode_def present_def)
qed

lemma updateNode_keys:
  assumes "\<And>n. nodeKey (f n) = nodeKey n"
  shows "containerKeys (updateNode r f d) = containerKeys d"
    and "documentKeys (updateNode r f d) = documentKeys d"
proof -
  have "\<And>xs i. map nodeKey (xs[i := f (xs ! i)]) = map nodeKey xs"
    using assms by (simp add: map_update list_update_same_conv) (metis list_update_beyond list_update_id map_update nth_map not_le)
  then show "containerKeys (updateNode r f d) = containerKeys d"
    and "documentKeys (updateNode r f d) = documentKeys d"
    by (auto simp: updateNode_def containerKeys_def documentKeys_def split: node_ref.splits)
qed


lemma appendChild_keys:
  "containerKeys (snd (appendChild x d)) = containerKeys d @ [nodeKey x]"
  "documentKeys (snd (appendChild x d)) = documentKeys d"
  by (simp_all add: appendChild_def containerKeys_def documentKeys_def)

lemma nodeKey_preserved:
  "nodeKey ((setValueDisplay s dv v)\<lparr>dataParamValue := x\<rparr>) = nodeKey v"
  "nodeKey (v\<lparr>dataStreaming := y\<rparr>) = nodeKey v"
  "nodeKey (v\<lparr>streamingParamName := y\<rparr>) = nodeKey v"
  by (simp_all add: nodeKey_def setValueDisplay_def split: option.splits)

text \<open>The last steps of \<open>createOrUpdateParamElement\<close>, which only update elements.\<close>

lemma finish_keys:
  fixes d2 :: pdom and valueRef nameRef :: node_ref and isStreaming :: bool and val :: jsstr
  defines "d3 \<equiv> updateNode valueRef
      (\<lambda>v. (setValueDisplay isStreaming val v)\<lparr>dataParamValue := Some val\<rparr>) d2"
  defines "res \<equiv> (if isStreaming
                      then updateNode valueRef (\<lambda>v. v\<lparr>dataStreaming := True\<rparr>)
                             (updateNode nameRef (\<lambda>n. n\<lparr>streamingParamName := True\<rparr>) d3)
                      else if streamingParamName (getNode d3 nameRef)
                      then updateNode valueRef (\<lambda>v. v\<lparr>dataStreaming := False\<rparr>)
                             (updateNode nameRef (\<lambda>n. n\<lparr>streamingParamName := False\<rparr>) d3)
                      else d3)"
  shows "containerKeys res = containerKeys d2 \<and> documentKeys res = documentKeys d2"
proof -
  have 3: "containerKeys d3 = containerKeys d2" "documentKeys d3 = documentKeys d2"
    unfolding d3_def by (rule updateNode_keys, rule nodeKey_preserved)+
  show ?thesis unfolding res_def using 3
    by (simp add: updateNode_keys nodeKey_preserved)
qed

lemma createOrUpdate_keys:
  assumes "paramSelectorValue (b @ [45] @ n) = AsksFor sel"
  shows "\<exists>d'. createOrUpdateParamElement n v b new s d = Inr d' \<and>
           documentKeys d' = documentKeys d \<and>
           containerKeys d' = containerKeys d @
             (if present ParamNameNode sel d then [] else [(ParamNameNode, b @ [45] @ n)]) @
             (if present ParamValueNode sel d then [] else [(ParamValueNode, b @ [45] @ n)])"
proof -
  let ?pid = "b @ [45] @ n"
  obtain nameRef d1 where nd: "(case lookupParamNode ParamNameNode sel d of
                                     Some r \<Rightarrow> (r, d)
                                   | None \<Rightarrow> appendChild (newParamName ?pid n) d) = (nameRef, d1)"
    by (metis surj_pair)
  obtain valueRef d2 where vd: "(case lookupParamNode ParamValueNode sel d of
                                      Some r \<Rightarrow> (r, d1)
                                    | None \<Rightarrow> appendChild (newParamValue ?pid n) d1) = (valueRef, d2)"
    by (metis surj_pair)
  have k1: "containerKeys d1 = containerKeys d @
             (if present ParamNameNode sel d then [] else [(ParamNameNode, ?pid)])"
       "documentKeys d1 = documentKeys d"
    using nd lookup_present[of ParamNameNode sel d]
      appendChild_keys[of "newParamName ?pid n" d]
    by (auto simp: nodeKey_def newParamName_def split: option.splits)
  have k2: "containerKeys d2 = containerKeys d1 @
             (if present ParamValueNode sel d then [] else [(ParamValueNode, ?pid)])"
       "documentKeys d2 = documentKeys d1"
    using vd lookup_present[of ParamValueNode sel d]
      appendChild_keys[of "newParamValue ?pid n" d1]
    by (auto simp: nodeKey_def newParamValue_def split: option.splits)
  show ?thesis
    unfolding createOrUpdateParamElement_def Let_def assms selector_value.case nd vd prod.case
    using finish_keys[where valueRef = valueRef and isStreaming = s and val = v and ?d2.0 = d2
        and nameRef = nameRef] k1 k2
    by (simp add: Let_def)
qed

lemma present_mono:
  assumes "present k v d" "set (containerKeys d) \<subseteq> set (containerKeys d')"
    "documentKeys d' = documentKeys d"
  shows "present k v d'"
  using assms by (auto simp: present_def)

lemma allPresent_mono:
  assumes "allPresent b es d" "set (containerKeys d) \<subseteq> set (containerKeys d')"
    "documentKeys d' = documentKeys d"
  shows "allPresent b es d'"
  using assms present_mono[of _ _ d d']
  by (auto simp: allPresent_def list_all_iff)

lemma createOrUpdate_safe:
  assumes "selectorSafe (b @ [45] @ n)"
  shows "\<exists>d'. createOrUpdateParamElement n v b new s d = Inr d' \<and>
           documentKeys d' = documentKeys d \<and>
           set (containerKeys d) \<subseteq> set (containerKeys d') \<and>
           present ParamNameNode (b @ [45] @ n) d' \<and> present ParamValueNode (b @ [45] @ n) d' \<and>
           (present ParamNameNode (b @ [45] @ n) d \<and> present ParamValueNode (b @ [45] @ n) d \<longrightarrow>
              containerKeys d' = containerKeys d)"
proof -
  from assms have "paramSelectorValue (b @ [45] @ n) = AsksFor (b @ [45] @ n)"
    by (simp add: selectorSafe_def)
  from createOrUpdate_keys[OF this, of v new s d] obtain d' where
    r: "createOrUpdateParamElement n v b new s d = Inr d'"
    and dk: "documentKeys d' = documentKeys d"
    and ck: "containerKeys d' = containerKeys d @
             (if present ParamNameNode (b @ [45] @ n) d then [] else [(ParamNameNode, b @ [45] @ n)]) @
             (if present ParamValueNode (b @ [45] @ n) d then [] else [(ParamValueNode, b @ [45] @ n)])"
    by blast
  have "present ParamNameNode (b @ [45] @ n) d'" "present ParamValueNode (b @ [45] @ n) d'"
    using ck dk by (auto simp: present_def split: if_splits)
  then show ?thesis using r dk ck by auto
qed

lemma renderParams_first:
  assumes "allSafe b es"
  shows "\<exists>d'. renderParams b new es d = Inr d' \<and> documentKeys d' = documentKeys d \<and>
           set (containerKeys d) \<subseteq> set (containerKeys d') \<and> allPresent b es d'"
  using assms
proof (induction es arbitrary: d)
  case Nil
  then show ?case by (simp add: allPresent_def)
next
  case (Cons e es)
  obtain n v s where e: "e = (n, v, s)" by (cases e)
  from Cons.prems e have safe: "selectorSafe (b @ [45] @ n)" and rest: "allSafe b es"
    by (simp_all add: allSafe_def)
  from createOrUpdate_safe[OF safe, of v new s d] obtain d1 where
    1: "createOrUpdateParamElement n v b new s d = Inr d1" "documentKeys d1 = documentKeys d"
      "set (containerKeys d) \<subseteq> set (containerKeys d1)"
      "present ParamNameNode (b @ [45] @ n) d1" "present ParamValueNode (b @ [45] @ n) d1"
    by blast
  from Cons.IH[OF rest, of d1] obtain d' where
    2: "renderParams b new es d1 = Inr d'" "documentKeys d' = documentKeys d1"
      "set (containerKeys d1) \<subseteq> set (containerKeys d')" "allPresent b es d'"
    by blast
  have "present ParamNameNode (b @ [45] @ n) d'" "present ParamValueNode (b @ [45] @ n) d'"
    using 1(4,5) 2(2,3) by (auto intro: present_mono)
  then have "allPresent b (e # es) d'" using 2(4) e by (simp add: allPresent_def)
  then show ?case using 1 2 e by auto
qed

lemma renderParams_again:
  assumes "allSafe b es" "allPresent b es d"
  shows "\<exists>d'. renderParams b new es d = Inr d' \<and> documentKeys d' = documentKeys d \<and>
           containerKeys d' = containerKeys d"
  using assms
proof (induction es arbitrary: d)
  case Nil
  then show ?case by simp
next
  case (Cons e es)
  obtain n v s where e: "e = (n, v, s)" by (cases e)
  from Cons.prems e have safe: "selectorSafe (b @ [45] @ n)" and rest: "allSafe b es"
    by (simp_all add: allSafe_def)
  from Cons.prems e have pn: "present ParamNameNode (b @ [45] @ n) d"
    "present ParamValueNode (b @ [45] @ n) d" and pr: "allPresent b es d"
    by (simp_all add: allPresent_def)
  from createOrUpdate_safe[OF safe, of v new s d] pn obtain d1 where
    1: "createOrUpdateParamElement n v b new s d = Inr d1" "documentKeys d1 = documentKeys d"
      "containerKeys d1 = containerKeys d"
    by blast
  have "allPresent b es d1" using pr 1(2,3) by (intro allPresent_mono[of b es d d1]) simp_all
  from Cons.IH[OF rest this] obtain d' where
    2: "renderParams b new es d1 = Inr d'" "documentKeys d' = documentKeys d1"
      "containerKeys d' = containerKeys d1"
    by blast
  show ?case using 1 2 e by simp
qed

lemma countNodes_keys: "countNodes k d = length (filter (\<lambda>p. fst p = k) (containerKeys d))"
  by (simp add: countNodes_def containerKeys_def nodeKey_def filter_map comp_def)

lemma cssPreprocess_plain:
  "list_all plainUnit s \<Longrightarrow> cssPreprocess (s @ [34, 93]) = s @ [34, 93]"
proof (induction s)
  case Nil
  then show ?case by simp
next
  case (Cons c s)
  then have c: "plainUnit c" and s: "list_all plainUnit s" by simp_all
  obtain d r where dr: "s @ [34, 93] = d # r" by (cases "s @ [34, 93]") auto
  have "cssPreprocess (c # d # r) = c # cssPreprocess (d # r)"
    using c by (simp add: plainUnit_def)
  then show ?case using Cons.IH[OF s] dr by simp
qed

lemma cssString_plain:
  "list_all plainUnit s \<Longrightarrow> cssString (s @ 34 # r) = StringToken s r"
proof (induction s)
  case Nil
  then show ?case by (simp add: cssString.simps)
next
  case (Cons c s)
  then have c: "plainUnit c" and s: "list_all plainUnit s" by simp_all
  have "cssString (c # (s @ 34 # r)) = consValue [c] (cssString (s @ 34 # r))"
    using c by (simp add: cssString.simps plainUnit_def)
  then show ?case using Cons.IH[OF s] by simp
qed

lemma plain_selectorSafe: "list_all plainUnit s \<Longrightarrow> selectorSafe s"
  using cssPreprocess_plain[of s] cssString_plain[of s "[93]"]
  by (simp add: selectorSafe_def paramSelectorValue_def)

text \<open>
  Where the selectors ask for the identifiers themselves, the second pass finds every
  element the first one left and creates none: the guard of
  \<^verbatim>\<open>createOrUpdateParamElement\<close> works for such names.
\<close>

lemma parameter_pass_idempotent:
  assumes "allSafe b (paramMatches raw 0)"
  shows "\<exists>d1. parameterPass b new raw d = Inr d1 \<and>
           (\<exists>d2. parameterPass b False raw d1 = Inr d2 \<and>
                 length (containerNodes d2) = length (containerNodes d1) \<and>
                 countNodes k d2 = countNodes k d1)"
proof -
  from renderParams_first[OF assms, of new d] obtain d1 where
    1: "renderParams b new (paramMatches raw 0) d = Inr d1" "allPresent b (paramMatches raw 0) d1"
    by blast
  from renderParams_again[OF assms 1(2), of False] obtain d2 where
    2: "renderParams b False (paramMatches raw 0) d1 = Inr d2" "containerKeys d2 = containerKeys d1"
    by blast
  have "length (containerNodes d2) = length (containerNodes d1)"
    using 2(2) by (metis containerKeys_def length_map)
  then show ?thesis using 1 2 by (simp add: parameterPass_def parameterLoop_matches countNodes_keys)
qed

lemma plain_names_idempotent:
  assumes "list_all plainUnit b"
    and "list_all (\<lambda>(n, v, s). list_all plainUnit n) (paramMatches raw 0)"
  shows "\<exists>d1. parameterPass b new raw d = Inr d1 \<and>
           (\<exists>d2. parameterPass b False raw d1 = Inr d2 \<and>
                 length (containerNodes d2) = length (containerNodes d1) \<and>
                 countNodes k d2 = countNodes k d1)"
proof -
  have p45: "plainUnit 45" by (simp add: plainUnit_def)
  have "allSafe b (paramMatches raw 0)"
    unfolding allSafe_def list_all_iff
  proof (intro ballI)
    fix e assume e: "e \<in> set (paramMatches raw 0)"
    obtain n v s where nvs: "e = (n, v, s)" by (cases e)
    have "list_all plainUnit n" using assms(2) e nvs by (auto simp: list_all_iff)
    then have "list_all plainUnit (b @ [45] @ n)" using assms(1) p45 by simp
    then have "selectorSafe (b @ [45] @ n)" by (rule plain_selectorSafe)
    then show "case e of (n, v, s) \<Rightarrow> selectorSafe (b @ [45] @ n)" using nvs by simp
  qed
  then show ?thesis by (rule parameter_pass_idempotent)
qed

text \<open>
  Claim C8 at a failing input. A complete call has a parameter named \<^verbatim>\<open>dir\name\<close>.
  The first rendering of the block \<open>b1\<close> creates one parameter-name and one
  parameter-value element with \<^verbatim>\<open>data-param-id\<close> \<^verbatim>\<open>b1-dir\name\<close>.
  The second rendering of the same text looks them up with the selector
  \<^verbatim>\<open>[data-param-id="b1-dir\name"]\<close>, in which the backslash escapes the
  \<open>n\<close>: the selector asks for \<^verbatim>\<open>b1-dirname\<close>, finds nothing in the
  container or the document, and a second pair of elements is created.
\<close>

theorem backslash_name_duplicates_nodes:
  "(case parameterPass (js ''b1'') True backslashText emptyDom of
      Inl e \<Rightarrow> False
    | Inr d1 \<Rightarrow>
        countNodes ParamNameNode d1 = 1 \<and> countNodes ParamValueNode d1 = 1 \<and>
        (case parameterPass (js ''b1'') False backslashText d1 of
           Inl e \<Rightarrow> False
         | Inr d2 \<Rightarrow> countNodes ParamNameNode d2 = 2 \<and> countNodes ParamValueNode d2 = 2))"
  unfolding first_pass sum.case second_pass
  by (simp add: countNodes_def onceRendered_def newParamName_def newParamValue_def)

end
